theory Spec2Isabelle
  imports Main
begin

section \<open>JavaScript values\<close>

text \<open>
  A thrown or rejected JavaScript error.  \<open>Error m\<close> is \<^verbatim>\<open>new Error(m)\<close> (also the error
  object an HTTP request hands to its callback); \<open>TypeError\<close> is what reading a property of
  \<^verbatim>\<open>undefined\<close> or \<^verbatim>\<open>null\<close> raises.
\<close>

datatype js_error = Error string | TypeError

text \<open>
  Truthiness of an optional string (\<^verbatim>\<open>!x\<close> is its negation): \<^verbatim>\<open>undefined\<close> and the
  empty string are falsy.  Truthiness of an optional boolean: only \<^verbatim>\<open>true\<close> is truthy.
\<close>

definition truthy :: "string option \<Rightarrow> bool" where
  "truthy v = (case v of None \<Rightarrow> False | Some s \<Rightarrow> s \<noteq> [])"

definition truthy_bool :: "bool option \<Rightarrow> bool" where
  "truthy_bool v = (case v of None \<Rightarrow> False | Some b \<Rightarrow> b)"

section \<open>Config (src/config.ts)\<close>

record ISettings =
  core :: "(string \<rightharpoonup> string) option"

record Config =
  settings :: "ISettings option"

definition Config_register :: "ISettings \<Rightarrow> Config \<Rightarrow> Config" where
  "Config_register st c = c\<lparr>settings := Some st\<rparr>"

definition Config_get :: "Config \<Rightarrow> string \<Rightarrow> string option" where
  "Config_get c name =
     (case settings c of
        None \<Rightarrow> None
      | Some st \<Rightarrow> (case core st of None \<Rightarrow> None | Some m \<Rightarrow> m name))"

section \<open>Value objects and options of the push service\<close>

text \<open>
  Modelled from the spec: class \<^verbatim>\<open>PushToken\<close> of \<^verbatim>\<open>./token\<close> is imported by push.ts and is
  not among the sources.  The spec gives it the fields token, registered and saved
  (``registered = native subsystem issued it; saved = remote API accepted it''), so a
  freshly constructed token has neither flag, and its string representation is by token
  value.
\<close>

record PushToken =
  token :: string
  registered :: bool
  saved :: bool

definition new_PushToken :: "string \<Rightarrow> PushToken" where
  "new_PushToken t = \<lparr>token = t, registered = False, saved = False\<rparr>"

definition PushToken_toString :: "PushToken \<Rightarrow> string" where
  "PushToken_toString t = token t"

text \<open>The record kept in storage under the key \<^verbatim>\<open>push_token\<close>: \<^verbatim>\<open>{'token': ...}\<close>.\<close>

record PushStorageObject =
  so_token :: string

text \<open>\<^verbatim>\<open>interface ServiceTokenData\<close>: the body of both remote calls.\<close>

record ServiceTokenData =
  td_token :: string
  app_id :: "string option"
  user_id :: "string option"

record AndroidPluginConfig =
  senderID :: "string option"

record PluginConfig =
  android :: "AndroidPluginConfig option"

record PushOptions =
  sender_id :: "string option"
  debug :: bool
  pluginConfig :: "PluginConfig option"

record SaveTokenOptions =
  ignore_user :: "bool option"

record IUser =
  user_ident :: string

section \<open>Closures, requests, promises\<close>

text \<open>
  Each closure of push.ts is a constructor carrying what the closure captures.
  A promise is named by its index in the table of promises, a push token object by its
  reference in the object store, a plugin handle by the index of the \<^verbatim>\<open>init\<close> call that
  returned it.
\<close>

datatype once_handler =
  RegisterOnReady nat  \<comment> \<open>the \<^verbatim>\<open>device:ready\<close> closure of register(), with its deferred\<close>

datatype plugin_handler =
    RegisterResolve nat  \<comment> \<open>the \<^verbatim>\<open>registration\<close> closure of register(), with its deferred\<close>
  | CallbackRegistration
  | CallbackNotification
  | CallbackError

datatype end_callback =
    SaveTokenEnd nat ServiceTokenData nat  \<comment> \<open>token, tokenData, deferred\<close>
  | UnregisterEnd nat nat  \<comment> \<open>pushToken, deferred\<close>

record request =
  path :: string
  body :: ServiceTokenData
  on_end :: end_callback

datatype plugin_event =
    Registration string  \<comment> \<open>\<^verbatim>\<open>data.registrationId\<close>\<close>
  | Notification string  \<comment> \<open>the raw notification, kept opaque\<close>
  | PluginError js_error

fun event_name :: "plugin_event \<Rightarrow> string" where
  "event_name (Registration rid) = ''registration''"
| "event_name (Notification raw) = ''notification''"
| "event_name (PluginError e) = ''error''"

datatype bus_payload =
    RegisterPayload string
  | NotificationPayload string
  | ErrorPayload js_error

datatype log_entry =
    LogInfo string
  | LogWarn string
  | LogError string
  | LogErrorWith string js_error

text \<open>
  Modelled from the spec: \<^verbatim>\<open>DeferredPromise\<close> of \<^verbatim>\<open>../promise\<close> is not among the sources.
  It is the promise-like future of the spec: pending until it is resolved or rejected, and
  settled once (a later resolve or reject of a settled promise changes nothing).
  A register or saveToken promise resolves with a token object, an unregister promise
  with no value.
\<close>

datatype promise = Pending | Resolved "nat option" | Rejected js_error

section \<open>The coordinator and the collaborators it holds\<close>

text \<open>
  One record holds the fields of class \<^verbatim>\<open>Push\<close> and, since the class only keeps references
  to them, the state of its collaborators: what the session, the device and the
  configuration answer, the requests the HTTP client has open, the closures waiting on
  the event emitter and what was emitted, the stored records, the log, and what the
  native plugin was asked.  The field \<^verbatim>\<open>registered\<close> of the class is \<open>push_registered\<close>
  here and \<^verbatim>\<open>_token\<close> is \<open>priv_token\<close>; a token is held by reference, so that the object
  a promise was resolved with and the object in the cache can be told apart.
\<close>

record Push =
  \<comment> \<open>collaborators handed to the constructor\<close>
  config :: Config
  auth_isAuthenticated :: bool
  userService_current :: IUser
  device_isAndroid :: bool
  device_isIOS :: bool
  client :: "request list"  \<comment> \<open>requests sent and not yet answered\<close>
  emitter_once :: "(string \<times> once_handler) list"
  emitter_emitted :: "(string \<times> bus_payload) list"
  storage :: "string \<rightharpoonup> PushStorageObject"
  logger :: "log_entry list"
  \<comment> \<open>the native plugin: configurations passed to init, subscriptions, unregister calls\<close>
  plugin_inits :: "PluginConfig option list"
  plugin_handlers :: "(nat \<times> string \<times> plugin_handler) list"
  plugin_unregistered :: "nat list"
  \<comment> \<open>objects: push tokens by reference, promises by index\<close>
  heap :: "nat \<Rightarrow> PushToken"
  next_ref :: nat
  promises :: "promise list"
  \<comment> \<open>the fields of class Push\<close>
  options :: PushOptions
  plugin :: "nat option"
  blockRegistration :: bool
  blockUnregister :: bool
  blockSaveToken :: bool
  push_registered :: bool
  priv_token :: "nat option"  \<comment> \<open>\<^verbatim>\<open>_token\<close>; \<open>None\<close> is undefined or null\<close>

text \<open>What the constructor receives in \<^verbatim>\<open>deps\<close>: the collaborators in their current state.\<close>

record PushDependencies =
  dep_config :: Config
  dep_auth :: bool
  dep_userService :: IUser
  dep_isAndroid :: bool
  dep_isIOS :: bool
  dep_storage :: "string \<rightharpoonup> PushStorageObject"

section \<open>Promises\<close>

definition new_deferred :: "Push \<Rightarrow> nat \<times> Push" where
  "new_deferred s = (length (promises s), s\<lparr>promises := promises s @ [Pending]\<rparr>)"

definition promise_pending :: "Push \<Rightarrow> nat \<Rightarrow> bool" where
  "promise_pending s d = (d < length (promises s) \<and> promises s ! d = Pending)"

definition settle :: "nat \<Rightarrow> promise \<Rightarrow> Push \<Rightarrow> Push" where
  "settle d v s =
     (if promise_pending s d then s\<lparr>promises := (promises s)[d := v]\<rparr> else s)"

definition resolve :: "nat \<Rightarrow> nat option \<Rightarrow> Push \<Rightarrow> Push" where
  "resolve d v s = settle d (Resolved v) s"

definition reject :: "nat \<Rightarrow> js_error \<Rightarrow> Push \<Rightarrow> Push" where
  "reject d e s = settle d (Rejected e) s"

section \<open>class Push (src/push/push.ts)\<close>

subsection \<open>constructor\<close>

definition constructor :: "PushDependencies \<Rightarrow> PushOptions \<Rightarrow> Push" where
  "constructor deps opts =
     (let this = \<lparr>config = dep_config deps,
                  auth_isAuthenticated = dep_auth deps,
                  userService_current = dep_userService deps,
                  device_isAndroid = dep_isAndroid deps,
                  device_isIOS = dep_isIOS deps,
                  client = [],
                  emitter_once = [],
                  emitter_emitted = [],
                  storage = dep_storage deps,
                  logger = [],
                  plugin_inits = [],
                  plugin_handlers = [],
                  plugin_unregistered = [],
                  heap = (\<lambda>r. new_PushToken []),
                  next_ref = 0,
                  promises = [],
                  options = opts,
                  plugin = None,
                  blockRegistration = False,
                  blockUnregister = False,
                  blockSaveToken = False,
                  push_registered = False,
                  priv_token = None\<rparr>
      in if device_isAndroid this \<and> \<not> truthy (sender_id (options this))
         then this\<lparr>logger := logger this @
                [LogError ''Ionic Push: GCM project number not found (http://docs.ionic.io/docs/push-android-setup)'']\<rparr>
         else
           let pc = (case pluginConfig opts of None \<Rightarrow> \<lparr>android = None\<rparr> | Some c \<Rightarrow> c);
               pc' = (if device_isAndroid this
                      then let a = (case android pc of None \<Rightarrow> \<lparr>senderID = None\<rparr> | Some c \<Rightarrow> c);
                               a' = (if \<not> truthy (senderID a) then a\<lparr>senderID := sender_id (options this)\<rparr> else a)
                           in pc\<lparr>android := Some a'\<rparr>
                      else pc)
           in this\<lparr>options := opts\<lparr>pluginConfig := Some pc'\<rparr>\<rparr>)"

subsection \<open>token getter and setter\<close>

text \<open>
  Modelled from the spec: the storage collaborator is not among the sources; its
  \<^verbatim>\<open>get(key)\<close> gives the record or undefined, \<^verbatim>\<open>set\<close> stores, \<^verbatim>\<open>delete\<close> removes.
  The getter reads \<^verbatim>\<open>.token\<close> of what \<^verbatim>\<open>get\<close> returned, which raises on undefined.
  It returns \<^verbatim>\<open>this._token\<close>, with the state after a possible load.
\<close>

definition token_get :: "Push \<Rightarrow> js_error + (nat option \<times> Push)" where
  "token_get s =
     (case priv_token s of
        Some r \<Rightarrow> Inr (priv_token s, s)
      | None \<Rightarrow>
          (case storage s ''push_token'' of
             None \<Rightarrow> Inl TypeError
           | Some rec \<Rightarrow>
               let r = next_ref s;
                   s' = s\<lparr>heap := (heap s)(r := new_PushToken (so_token rec)),
                          next_ref := Suc r,
                          priv_token := Some r\<rparr>
               in Inr (priv_token s', s')))"

definition token_set :: "nat option \<Rightarrow> Push \<Rightarrow> Push" where
  "token_set val s =
     (let s' = (case val of
                  None \<Rightarrow> s\<lparr>storage := (storage s)(''push_token'' := None)\<rparr>
                | Some r \<Rightarrow> s\<lparr>storage := (storage s)(''push_token'' \<mapsto> \<lparr>so_token = token (heap s r)\<rparr>)\<rparr>)
      in s'\<lparr>priv_token := val\<rparr>)"

text \<open>\<^verbatim>\<open>new PushToken(t)\<close>: a new object in the store, and its reference.\<close>

definition alloc_PushToken :: "string \<Rightarrow> Push \<Rightarrow> nat \<times> Push" where
  "alloc_PushToken t s =
     (next_ref s, s\<lparr>heap := (heap s)(next_ref s := new_PushToken t), next_ref := Suc (next_ref s)\<rparr>)"

subsection \<open>saveToken\<close>

text \<open>Lines 120 to 130: the record sent to the API.\<close>

definition saveToken_tokenData :: "nat \<Rightarrow> SaveTokenOptions \<Rightarrow> Push \<Rightarrow> ServiceTokenData" where
  "saveToken_tokenData tok opts s =
     (let tokenData = \<lparr>td_token = token (heap s tok),
                       app_id = Config_get (config s) ''app_id'',
                       user_id = None\<rparr>
      in if \<not> truthy_bool (ignore_user opts)
         then let user = userService_current s
              in if auth_isAuthenticated s
                 then tokenData\<lparr>user_id := Some (user_ident user)\<rparr>
                 else tokenData
         else tokenData)"

definition saveToken :: "nat \<Rightarrow> SaveTokenOptions \<Rightarrow> Push \<Rightarrow> nat \<times> Push" where
  "saveToken tok opts s =
     (let (deferred, s1) = new_deferred s;
          tokenData = saveToken_tokenData tok opts s1
      in if \<not> blockSaveToken s1
         then (deferred,
               s1\<lparr>client := client s1 @
                    [\<lparr>path = ''/push/tokens'', body = tokenData,
                      on_end = SaveTokenEnd tok tokenData deferred\<rparr>]\<rparr>)
         else (deferred,
               reject deferred (Error ''A token save operation is already in progress.'') s1))"

text \<open>The callback given to \<^verbatim>\<open>end\<close> in saveToken, run with the error or with none.\<close>

definition saveToken_end :: "nat \<Rightarrow> ServiceTokenData \<Rightarrow> nat \<Rightarrow> js_error option \<Rightarrow> Push \<Rightarrow> Push" where
  "saveToken_end tok tokenData deferred err s =
     (case err of
        Some e \<Rightarrow>
          let s1 = s\<lparr>blockSaveToken := False\<rparr>;
              s2 = s1\<lparr>logger := logger s1 @ [LogErrorWith ''Ionic Push:'' e]\<rparr>
          in reject deferred e s2
      | None \<Rightarrow>
          let s1 = s\<lparr>blockSaveToken := False\<rparr>;
              s2 = s1\<lparr>logger := logger s1 @
                     [LogInfo (''Ionic Push: saved push token: '' @ PushToken_toString (heap s1 tok))]\<rparr>;
              s3 = (case user_id tokenData of
                      None \<Rightarrow> s2
                    | Some u \<Rightarrow>
                        if truthy (user_id tokenData)
                        then s2\<lparr>logger := logger s2 @
                               [LogInfo (''Ionic Push: added push token to user: '' @ u)]\<rparr>
                        else s2);
              s4 = s3\<lparr>heap := (heap s3)(tok := (heap s3 tok)\<lparr>saved := True\<rparr>)\<rparr>
          in resolve deferred (Some tok) s4)"

subsection \<open>register\<close>

definition register :: "Push \<Rightarrow> nat \<times> Push" where
  "register s =
     (let (deferred, s1) = new_deferred s
      in if blockRegistration s1
         then (deferred, reject deferred (Error ''Another registration is already in progress.'') s1)
         else (deferred,
               s1\<lparr>blockRegistration := True,
                  emitter_once := emitter_once s1 @ [(''device:ready'', RegisterOnReady deferred)]\<rparr>))"

text \<open>
  \<^verbatim>\<open>_getPushPlugin\<close> reads the global \<^verbatim>\<open>window.PushNotification\<close>; \<open>win\<close> says whether
  it is defined when the method runs.
\<close>

definition getPushPlugin :: "bool \<Rightarrow> Push \<Rightarrow> bool \<times> Push" where
  "getPushPlugin win s =
     (let plugin = win
      in if \<not> plugin
         then if device_isIOS s \<or> device_isAndroid s
              then (plugin, s\<lparr>logger := logger s @
                      [LogError ''Ionic Push: PushNotification plugin is required. Have you run `ionic plugin add phonegap-plugin-push` ?'']\<rparr>)
              else (plugin, s\<lparr>logger := logger s @
                      [LogWarn ''Ionic Push: Disabled! Native push notifications will not work in a browser. Run your app on an actual device to use push.'']\<rparr>)
         else (plugin, s))"

text \<open>\<^verbatim>\<open>this.plugin.on(name, f)\<close>: raises when \<^verbatim>\<open>this.plugin\<close> is undefined.\<close>

definition plugin_on :: "string \<Rightarrow> plugin_handler \<Rightarrow> Push \<Rightarrow> js_error + Push" where
  "plugin_on name f s =
     (case plugin s of
        None \<Rightarrow> Inl TypeError
      | Some h \<Rightarrow> Inr (s\<lparr>plugin_handlers := plugin_handlers s @ [(h, name, f)]\<rparr>))"

definition callbackRegistration :: "Push \<Rightarrow> js_error + Push" where
  "callbackRegistration s =
     (case plugin_on ''registration'' CallbackRegistration s of
        Inl e \<Rightarrow> Inl e
      | Inr s1 \<Rightarrow>
          (case plugin_on ''notification'' CallbackNotification s1 of
             Inl e \<Rightarrow> Inl e
           | Inr s2 \<Rightarrow> plugin_on ''error'' CallbackError s2))"

text \<open>The closure register() gives to \<^verbatim>\<open>emitter.once('device:ready', ...)\<close>.\<close>

definition register_on_ready :: "nat \<Rightarrow> bool \<Rightarrow> Push \<Rightarrow> js_error + Push" where
  "register_on_ready deferred win s =
     (let (pushPlugin, s1) = getPushPlugin win s
      in if pushPlugin
         then
           let s2 = s1\<lparr>plugin_inits := plugin_inits s1 @ [pluginConfig (options s1)],
                       plugin := Some (length (plugin_inits s1))\<rparr>
           in (case plugin_on ''registration'' (RegisterResolve deferred) s2 of
                 Inl e \<Rightarrow> Inl e
               | Inr s3 \<Rightarrow>
                   (case callbackRegistration s3 of
                      Inl e \<Rightarrow> Inl e
                    | Inr s4 \<Rightarrow> Inr (s4\<lparr>push_registered := True\<rparr>)))
         else Inr (reject deferred (Error ''Push plugin not found! See logs.'') s1))"

text \<open>
  \<^verbatim>\<open>this.token.registered = true\<close> after an assignment to \<^verbatim>\<open>this.token\<close>: the getter,
  then a write to the object it returned.
\<close>

definition mark_registered :: "Push \<Rightarrow> js_error + Push" where
  "mark_registered s =
     (case token_get s of
        Inl e \<Rightarrow> Inl e
      | Inr (v, s1) \<Rightarrow>
          (case v of
             None \<Rightarrow> Inl TypeError
           | Some r \<Rightarrow> Inr (s1\<lparr>heap := (heap s1)(r := (heap s1 r)\<lparr>registered := True\<rparr>)\<rparr>)))"

text \<open>The closure register() subscribes to the plugin's \<^verbatim>\<open>registration\<close> event.\<close>

definition register_resolve :: "nat \<Rightarrow> string \<Rightarrow> Push \<Rightarrow> js_error + Push" where
  "register_resolve deferred registrationId s =
     (let s1 = s\<lparr>blockRegistration := False\<rparr>;
          (r, s2) = alloc_PushToken registrationId s1;
          s3 = token_set (Some r) s2
      in case mark_registered s3 of
           Inl e \<Rightarrow> Inl e
         | Inr s4 \<Rightarrow>
             (case token_get s4 of
                Inl e \<Rightarrow> Inl e
              | Inr (v, s5) \<Rightarrow> Inr (resolve deferred v s5)))"

text \<open>The three closures of \<^verbatim>\<open>_callbackRegistration\<close>.\<close>

definition callback_registration :: "string \<Rightarrow> Push \<Rightarrow> js_error + Push" where
  "callback_registration registrationId s =
     (let (r, s1) = alloc_PushToken registrationId s;
          s2 = token_set (Some r) s1
      in case (if debug (options s2)
               then (case token_get s2 of
                       Inl e \<Rightarrow> Inl e
                     | Inr (v, s3) \<Rightarrow>
                         (case v of
                            None \<Rightarrow> Inl TypeError
                          | Some r' \<Rightarrow>
                              Inr (s3\<lparr>logger := logger s3 @
                                     [LogInfo (''Ionic Push (debug): device token registered: ''
                                               @ PushToken_toString (heap s3 r'))]\<rparr>)))
               else Inr s2) of
           Inl e \<Rightarrow> Inl e
         | Inr s4 \<Rightarrow>
             Inr (s4\<lparr>emitter_emitted := emitter_emitted s4 @
                        [(''push:register'', RegisterPayload registrationId)]\<rparr>))"

definition callback_notification :: "string \<Rightarrow> Push \<Rightarrow> Push" where
  "callback_notification raw s =
     (let s1 = (if debug (options s)
                then s\<lparr>logger := logger s @
                       [LogInfo (''Ionic Push (debug): notification received: '' @ raw)]\<rparr>
                else s)
      in s1\<lparr>emitter_emitted := emitter_emitted s1 @
              [(''push:notification'', NotificationPayload raw)]\<rparr>)"

definition callback_error :: "js_error \<Rightarrow> Push \<Rightarrow> Push" where
  "callback_error e s =
     (let s1 = (if debug (options s)
                then s\<lparr>logger := logger s @
                       [LogError ''Ionic Push (debug): unexpected error occured.'',
                        LogErrorWith ''Ionic Push:'' e]\<rparr>
                else s)
      in s1\<lparr>emitter_emitted := emitter_emitted s1 @ [(''push:error'', ErrorPayload e)]\<rparr>)"

subsection \<open>unregister\<close>

definition unregister :: "Push \<Rightarrow> js_error + (nat \<times> Push)" where
  "unregister s =
     (let (deferred, s0) = new_deferred s
      in case (if \<not> blockUnregister s0
               then (case token_get s0 of
                       Inl e \<Rightarrow> Inl e
                     | Inr (pushToken, s1) \<Rightarrow>
                         (case pushToken of
                            None \<Rightarrow> Inr (resolve deferred None s1)
                          | Some r \<Rightarrow>
                              let tokenData = \<lparr>td_token = token (heap s1 r),
                                               app_id = Config_get (config s1) ''app_id'',
                                               user_id = None\<rparr>;
                                  s2 = (case plugin s1 of
                                          Some h \<Rightarrow> s1\<lparr>plugin_unregistered := plugin_unregistered s1 @ [h]\<rparr>
                                        | None \<Rightarrow> s1)
                              in Inr (s2\<lparr>client := client s2 @
                                        [\<lparr>path = ''/push/tokens/invalidate'', body = tokenData,
                                          on_end = UnregisterEnd r deferred\<rparr>]\<rparr>)))
               else Inr (reject deferred (Error ''An unregister operation is already in progress.'') s0)) of
           Inl e \<Rightarrow> Inl e
         | Inr s3 \<Rightarrow> Inr (deferred, s3\<lparr>blockUnregister := True\<rparr>))"

text \<open>The callback given to \<^verbatim>\<open>end\<close> in unregister.\<close>

definition unregister_end :: "nat \<Rightarrow> nat \<Rightarrow> js_error option \<Rightarrow> Push \<Rightarrow> Push" where
  "unregister_end pushToken deferred err s =
     (let s1 = s\<lparr>blockUnregister := False\<rparr>
      in case err of
           Some e \<Rightarrow>
             let s2 = s1\<lparr>logger := logger s1 @ [LogErrorWith ''Ionic Push:'' e]\<rparr>
             in reject deferred e s2
         | None \<Rightarrow>
             let s2 = s1\<lparr>logger := logger s1 @
                        [LogInfo (''Ionic Push: unregistered push token: '' @ token (heap s1 pushToken))]\<rparr>;
                 s3 = token_set None s2
             in resolve deferred None s3)"

section \<open>The event loop\<close>

text \<open>
  The native plugin fires an event on a handle: the closures subscribed with \<^verbatim>\<open>on\<close> on that
  handle under the event's name run in the order of their subscription, each with the
  event's data, and stay subscribed.  The plugin hands an event's data only to the
  closures of that event, so a closure never sees the data of another event (last
  equation).
\<close>

fun run_plugin_handler :: "plugin_handler \<Rightarrow> plugin_event \<Rightarrow> Push \<Rightarrow> js_error + Push" where
  "run_plugin_handler (RegisterResolve d) (Registration rid) s = register_resolve d rid s"
| "run_plugin_handler CallbackRegistration (Registration rid) s = callback_registration rid s"
| "run_plugin_handler CallbackNotification (Notification raw) s = Inr (callback_notification raw s)"
| "run_plugin_handler CallbackError (PluginError e) s = Inr (callback_error e s)"
| "run_plugin_handler f ev s = Inr s"

fun run_plugin_handlers :: "plugin_handler list \<Rightarrow> plugin_event \<Rightarrow> Push \<Rightarrow> js_error + Push" where
  "run_plugin_handlers [] ev s = Inr s"
| "run_plugin_handlers (f # fs) ev s =
     (case run_plugin_handler f ev s of
        Inl e \<Rightarrow> Inl e
      | Inr s' \<Rightarrow> run_plugin_handlers fs ev s')"

definition subscribed :: "nat \<Rightarrow> string \<Rightarrow> Push \<Rightarrow> plugin_handler list" where
  "subscribed h name s =
     map (\<lambda>(h', name', f). f)
       (filter (\<lambda>(h', name', f). h' = h \<and> name' = name) (plugin_handlers s))"

definition plugin_fires :: "nat \<Rightarrow> plugin_event \<Rightarrow> Push \<Rightarrow> js_error + Push" where
  "plugin_fires h ev s = run_plugin_handlers (subscribed h (event_name ev) s) ev s"

text \<open>
  Modelled from the spec: the event emitter is not among the sources.  Its
  \<^verbatim>\<open>once(event, handler)\<close> ``fires at most once then auto-unsubscribes'': when
  \<^verbatim>\<open>device:ready\<close> is emitted, the closures waiting for it are taken off the emitter and run
  in the order of their subscription.  \<open>win\<close> says whether \<^verbatim>\<open>window.PushNotification\<close> is
  defined at that moment.
\<close>

fun run_once_handlers :: "once_handler list \<Rightarrow> bool \<Rightarrow> Push \<Rightarrow> js_error + Push" where
  "run_once_handlers [] win s = Inr s"
| "run_once_handlers (RegisterOnReady d # fs) win s =
     (case register_on_ready d win s of
        Inl e \<Rightarrow> Inl e
      | Inr s' \<Rightarrow> run_once_handlers fs win s')"

definition emit_device_ready :: "bool \<Rightarrow> Push \<Rightarrow> js_error + Push" where
  "emit_device_ready win s =
     run_once_handlers
       (map snd (filter (\<lambda>(name, f). name = ''device:ready'') (emitter_once s)))
       win
       (s\<lparr>emitter_once := filter (\<lambda>(name, f). name \<noteq> ''device:ready'') (emitter_once s)\<rparr>)"

text \<open>
  Modelled from the spec: the HTTP client is not among the sources.  It ``issues a POST
  with a JSON body to a path, invoking a completion callback with (error, response)'',
  later and once.  Here it answers the request at position \<open>i\<close> of those still open, with
  an error or with none: the request leaves the list and its \<^verbatim>\<open>end\<close> callback runs.
\<close>

fun run_end_callback :: "end_callback \<Rightarrow> js_error option \<Rightarrow> Push \<Rightarrow> Push" where
  "run_end_callback (SaveTokenEnd tok tokenData deferred) err s = saveToken_end tok tokenData deferred err s"
| "run_end_callback (UnregisterEnd pushToken deferred) err s = unregister_end pushToken deferred err s"

definition respond :: "nat \<Rightarrow> js_error option \<Rightarrow> Push \<Rightarrow> Push" where
  "respond i err s =
     (if i < length (client s)
      then run_end_callback (on_end (client s ! i)) err
             (s\<lparr>client := take i (client s) @ drop (Suc i) (client s)\<rparr>)
      else s)"

text \<open>
  What can happen to a coordinator: a call of one of its three methods, or one of the
  events it waits for.  An exception leaves the state as it was when it was raised:
  unregister raises before it has changed anything, and the closures never raise
  (\<open>run_once_handlers_total\<close>, \<open>run_plugin_handlers_total\<close> below).
\<close>

datatype event =
    CallRegister
  | CallUnregister
  | CallSaveToken nat SaveTokenOptions
  | DeviceReady bool
  | PluginFires nat plugin_event
  | Response nat "js_error option"

fun step :: "event \<Rightarrow> Push \<Rightarrow> Push" where
  "step CallRegister s = snd (register s)"
| "step CallUnregister s = (case unregister s of Inl e \<Rightarrow> s | Inr (d, s') \<Rightarrow> s')"
| "step (CallSaveToken tok opts) s = snd (saveToken tok opts s)"
| "step (DeviceReady win) s = (case emit_device_ready win s of Inl e \<Rightarrow> s | Inr s' \<Rightarrow> s')"
| "step (PluginFires h ev) s = (case plugin_fires h ev s of Inl e \<Rightarrow> s | Inr s' \<Rightarrow> s')"
| "step (Response i err) s = respond i err s"

fun run :: "event list \<Rightarrow> Push \<Rightarrow> Push" where
  "run [] s = s"
| "run (e # es) s = run es (step e s)"

text \<open>
  The registrations in flight: the deferreds of admitted register() calls, waiting for
  \<^verbatim>\<open>device:ready\<close> or for the plugin's registration event, that are still pending.
\<close>

fun closure_deferred :: "once_handler \<Rightarrow> nat" where
  "closure_deferred (RegisterOnReady d) = d"

fun handler_deferred :: "plugin_handler \<Rightarrow> nat list" where
  "handler_deferred (RegisterResolve d) = [d]"
| "handler_deferred f = []"

definition handlers_deferred :: "plugin_handler list \<Rightarrow> nat list" where
  "handlers_deferred fs = concat (map handler_deferred fs)"

definition waiting_for_ready :: "Push \<Rightarrow> nat list" where
  "waiting_for_ready s = map (\<lambda>(name, f). closure_deferred f) (emitter_once s)"

definition waiting_for_plugin :: "Push \<Rightarrow> nat list" where
  "waiting_for_plugin s = handlers_deferred (map (\<lambda>(h, name, f). f) (plugin_handlers s))"

definition admitted :: "Push \<Rightarrow> nat list" where
  "admitted s = waiting_for_ready s @ waiting_for_plugin s"

definition registrations_in_flight :: "Push \<Rightarrow> nat list" where
  "registrations_in_flight s = filter (promise_pending s) (admitted s)"

text \<open>The unregister operations in flight: the invalidate requests not yet answered.\<close>

fun is_unregister_request :: "request \<Rightarrow> bool" where
  "is_unregister_request r = (case on_end r of UnregisterEnd pushToken deferred \<Rightarrow> True | _ \<Rightarrow> False)"

definition unregisters_in_flight :: "Push \<Rightarrow> request list" where
  "unregisters_in_flight s = filter is_unregister_request (client s)"

fun is_saveToken_request :: "request \<Rightarrow> bool" where
  "is_saveToken_request r = (case on_end r of SaveTokenEnd tok tokenData deferred \<Rightarrow> True | _ \<Rightarrow> False)"

definition saves_in_flight :: "Push \<Rightarrow> request list" where
  "saves_in_flight s = filter is_saveToken_request (client s)"

text \<open>
  A registration event is timely when the register() closures it reaches, those subscribed
  on the handle under \<^verbatim>\<open>registration\<close>, all belong to registrations still pending: the
  handle has not delivered its registration before.  A run is orderly when each of its
  events is timely in the state it arrives in.
\<close>

fun timely :: "event \<Rightarrow> Push \<Rightarrow> bool" where
  "timely (PluginFires h (Registration rid)) s =
     list_all (promise_pending s) (handlers_deferred (subscribed h ''registration'' s))"
| "timely e s = True"

fun orderly :: "event list \<Rightarrow> Push \<Rightarrow> bool" where
  "orderly [] s = True"
| "orderly (e # es) s = (timely e s \<and> orderly es (step e s))"

text \<open>The invariants of the registration lock and of the unregister lock.\<close>

definition registration_inv :: "Push \<Rightarrow> bool" where
  "registration_inv s =
     (list_all (\<lambda>d. d < length (promises s)) (admitted s) \<and>
      length (registrations_in_flight s) \<le> (if blockRegistration s then 1 else 0))"

definition unregister_inv :: "Push \<Rightarrow> bool" where
  "unregister_inv s = (length (unregisters_in_flight s) = (if blockUnregister s then 1 else 0))"

text \<open>A table of promises evolves by new promises at its end and by settling pending ones.\<close>

definition promises_evolve :: "promise list \<Rightarrow> promise list \<Rightarrow> bool" where
  "promises_evolve ps ps' =
     (length ps \<le> length ps' \<and> (\<forall>i < length ps. ps' ! i = Pending \<longrightarrow> ps ! i = Pending))"

section \<open>Example coordinators\<close>

definition example_deps :: PushDependencies where
  "example_deps =
     \<lparr>dep_config = \<lparr>settings = Some \<lparr>core = Some [''app_id'' \<mapsto> ''app1'']\<rparr>\<rparr>,
      dep_auth = True,
      dep_userService = \<lparr>user_ident = ''u1''\<rparr>,
      dep_isAndroid = False,
      dep_isIOS = True,
      dep_storage = Map.empty\<rparr>"

definition example_options :: PushOptions where
  "example_options = \<lparr>sender_id = None, debug = False, pluginConfig = None\<rparr>"

text \<open>A coordinator on an iOS device, nothing stored yet.\<close>

definition fresh_push :: Push where
  "fresh_push = constructor example_deps example_options"

text \<open>A coordinator on an Android device, constructed without a sender id.\<close>

definition android_push :: Push where
  "android_push =
     constructor (example_deps\<lparr>dep_isAndroid := True, dep_isIOS := False\<rparr>) example_options"

text \<open>The first coordinator after a registration that the plugin answered with abc123.\<close>

definition registered_push :: Push where
  "registered_push =
     run [CallRegister, DeviceReady True, PluginFires 0 (Registration ''abc123'')] fresh_push"

text \<open>That coordinator after a call of unregister(), its request not yet answered.\<close>

definition unregistering_push :: Push where
  "unregistering_push = step CallUnregister registered_push"

section \<open>Evaluation\<close>

lemmas op_defs =
  constructor_def new_deferred_def promise_pending_def settle_def resolve_def reject_def
  token_get_def token_set_def alloc_PushToken_def saveToken_tokenData_def saveToken_def
  saveToken_end_def register_def getPushPlugin_def plugin_on_def callbackRegistration_def
  register_on_ready_def mark_registered_def register_resolve_def callback_registration_def
  callback_notification_def callback_error_def unregister_def unregister_end_def
  subscribed_def plugin_fires_def emit_device_ready_def respond_def admitted_def waiting_for_ready_def waiting_for_plugin_def
  registrations_in_flight_def unregisters_in_flight_def saves_in_flight_def handlers_deferred_def truthy_def
  truthy_bool_def Config_get_def new_PushToken_def PushToken_toString_def

lemmas example_defs =
  example_deps_def example_options_def fresh_push_def android_push_def registered_push_def

lemma registered_push_state:
  "promises registered_push = [Resolved (Some 0)]"
  "heap registered_push 0 = \<lparr>token = ''abc123'', registered = True, saved = False\<rparr>"
  "heap registered_push 1 = \<lparr>token = ''abc123'', registered = False, saved = False\<rparr>"
  "storage registered_push ''push_token'' = Some \<lparr>so_token = ''abc123''\<rparr>"
  "priv_token registered_push = Some 1"
  "client registered_push = []"
  "\<not> blockRegistration registered_push"
  "\<not> blockUnregister registered_push"
  "\<not> blockSaveToken registered_push"
  by (simp_all add: example_defs op_defs Let_def)

section \<open>What each operation leaves unchanged\<close>

lemma settle_frame [simp]:
  "client (settle d v s) = client s"
  "blockUnregister (settle d v s) = blockUnregister s"
  "blockRegistration (settle d v s) = blockRegistration s"
  "blockSaveToken (settle d v s) = blockSaveToken s"
  "emitter_once (settle d v s) = emitter_once s"
  "plugin_handlers (settle d v s) = plugin_handlers s"
  "priv_token (settle d v s) = priv_token s"
  "storage (settle d v s) = storage s"
  "heap (settle d v s) = heap s"
  "length (promises (settle d v s)) = length (promises s)"
  by (simp_all add: settle_def)

lemma token_set_frame [simp]:
  "client (token_set v s) = client s"
  "blockUnregister (token_set v s) = blockUnregister s"
  "blockRegistration (token_set v s) = blockRegistration s"
  "emitter_once (token_set v s) = emitter_once s"
  "plugin_handlers (token_set v s) = plugin_handlers s"
  "promises (token_set v s) = promises s"
  "heap (token_set v s) = heap s"
  "next_ref (token_set v s) = next_ref s"
  "priv_token (token_set v s) = v"
  "options (token_set v s) = options s"
  by (simp_all add: token_set_def Let_def split: option.splits)

lemma token_get_frame:
  "token_get s = Inr (v, s') \<Longrightarrow>
     client s' = client s \<and> blockUnregister s' = blockUnregister s \<and>
     blockRegistration s' = blockRegistration s \<and> emitter_once s' = emitter_once s \<and>
     plugin_handlers s' = plugin_handlers s \<and> promises s' = promises s \<and>
     storage s' = storage s \<and> plugin s' = plugin s \<and> config s' = config s \<and> priv_token s' = v"
  unfolding token_get_def Let_def
  by (cases "priv_token s"; cases "storage s ''push_token''") auto

lemma register_on_ready_unreg:
  "register_on_ready d win s = Inr s' \<Longrightarrow> client s' = client s \<and> blockUnregister s' = blockUnregister s"
  by (auto simp: register_on_ready_def getPushPlugin_def plugin_on_def callbackRegistration_def
      reject_def Let_def split: if_splits)

lemma run_once_handlers_unreg:
  "run_once_handlers fs win s = Inr s' \<Longrightarrow> client s' = client s \<and> blockUnregister s' = blockUnregister s"
proof (induction fs win s rule: run_once_handlers.induct)
  case (1 win s)
  then show ?case by simp
next
  case (2 d fs win s)
  then show ?case by (auto split: sum.splits dest: register_on_ready_unreg)
qed

lemma emit_device_ready_unreg:
  "emit_device_ready win s = Inr s' \<Longrightarrow> client s' = client s \<and> blockUnregister s' = blockUnregister s"
  by (auto simp: emit_device_ready_def dest: run_once_handlers_unreg)

lemma register_resolve_unreg:
  "register_resolve d rid s = Inr s' \<Longrightarrow> client s' = client s \<and> blockUnregister s' = blockUnregister s"
  by (auto simp: register_resolve_def mark_registered_def alloc_PushToken_def resolve_def Let_def
      split: sum.splits option.splits prod.splits dest!: token_get_frame)

lemma callback_registration_unreg:
  "callback_registration rid s = Inr s' \<Longrightarrow> client s' = client s \<and> blockUnregister s' = blockUnregister s"
  by (auto simp: callback_registration_def alloc_PushToken_def Let_def
      split: sum.splits option.splits prod.splits if_splits dest!: token_get_frame)

lemma callback_other_frame [simp]:
  "client (callback_notification raw s) = client s"
  "blockUnregister (callback_notification raw s) = blockUnregister s"
  "blockRegistration (callback_notification raw s) = blockRegistration s"
  "emitter_once (callback_notification raw s) = emitter_once s"
  "plugin_handlers (callback_notification raw s) = plugin_handlers s"
  "promises (callback_notification raw s) = promises s"
  "client (callback_error e s) = client s"
  "blockUnregister (callback_error e s) = blockUnregister s"
  "blockRegistration (callback_error e s) = blockRegistration s"
  "emitter_once (callback_error e s) = emitter_once s"
  "plugin_handlers (callback_error e s) = plugin_handlers s"
  "promises (callback_error e s) = promises s"
  by (simp_all add: callback_notification_def callback_error_def Let_def)

lemma run_plugin_handler_unreg:
  "run_plugin_handler f ev s = Inr s' \<Longrightarrow> client s' = client s \<and> blockUnregister s' = blockUnregister s"
  by (cases "(f, ev, s)" rule: run_plugin_handler.cases)
     (auto dest: register_resolve_unreg callback_registration_unreg)

lemma run_plugin_handlers_unreg:
  "run_plugin_handlers fs ev s = Inr s' \<Longrightarrow> client s' = client s \<and> blockUnregister s' = blockUnregister s"
  by (induction fs arbitrary: s) (auto split: sum.splits dest: run_plugin_handler_unreg)

lemma plugin_fires_unreg:
  "plugin_fires h ev s = Inr s' \<Longrightarrow> client s' = client s \<and> blockUnregister s' = blockUnregister s"
  by (auto simp: plugin_fires_def dest: run_plugin_handlers_unreg)


lemma register_unreg:
  "client (snd (register s)) = client s \<and> blockUnregister (snd (register s)) = blockUnregister s"
  by (simp add: register_def new_deferred_def reject_def Let_def)

lemma saveToken_unreg:
  "unregisters_in_flight (snd (saveToken tok opts s)) = unregisters_in_flight s \<and>
   blockUnregister (snd (saveToken tok opts s)) = blockUnregister s"
  by (simp add: saveToken_def new_deferred_def reject_def unregisters_in_flight_def Let_def)

text \<open>What unregister does, by the lock and by what the getter finds.\<close>

lemma unregister_locked:
  "blockUnregister s \<Longrightarrow>
   unregister s =
     Inr (length (promises s),
          s\<lparr>promises := promises s @ [Rejected (Error ''An unregister operation is already in progress.'')]\<rparr>)"
  by (cases s) (simp add: unregister_def new_deferred_def reject_def settle_def promise_pending_def Let_def)

lemma unregister_unlocked:
  "\<not> blockUnregister s \<Longrightarrow>
   unregister s = Inl TypeError \<and> priv_token s = None \<and> storage s ''push_token'' = None
   \<or> (\<exists>r s'. unregister s = Inr (length (promises s), s') \<and>
         client s' = client s @
           [\<lparr>path = ''/push/tokens/invalidate'',
             body = \<lparr>td_token = token (heap s' r), app_id = Config_get (config s) ''app_id'', user_id = None\<rparr>,
             on_end = UnregisterEnd r (length (promises s))\<rparr>] \<and>
         blockUnregister s' \<and> priv_token s' = Some r \<and> storage s' = storage s \<and>
         promises s' = promises s @ [Pending] \<and>
         (\<forall>r'. priv_token s = Some r' \<longrightarrow> r' = r \<and> heap s' = heap s))"
  unfolding unregister_def new_deferred_def token_get_def Let_def
  by (cases "priv_token s"; cases "storage s ''push_token''"; cases "plugin s") auto

lemma filter_remove_nth:
  assumes "i < length xs"
  shows "length (filter P (take i xs @ drop (Suc i) xs)) + (if P (xs ! i) then 1 else 0) = length (filter P xs)"
proof -
  have "xs = take i xs @ xs ! i # drop (Suc i) xs"
    using assms by (rule id_take_nth_drop)
  then have "filter P xs = filter P (take i xs) @ filter P [xs ! i] @ filter P (drop (Suc i) xs)"
    by (metis append_Cons append_Nil filter_append)
  then show ?thesis by simp
qed

lemma saveToken_end_unreg [simp]:
  "client (saveToken_end tok td d err s) = client s"
  "blockUnregister (saveToken_end tok td d err s) = blockUnregister s"
  by (simp_all add: saveToken_end_def resolve_def reject_def Let_def split: option.splits)

lemma unregister_end_unreg [simp]:
  "client (unregister_end r d err s) = client s"
  "\<not> blockUnregister (unregister_end r d err s)"
  by (simp_all add: unregister_end_def resolve_def reject_def Let_def split: option.splits)

lemma respond_unregister_inv:
  assumes "unregister_inv s"
  shows "unregister_inv (respond i err s)"
proof (cases "i < length (client s)")
  case False
  then show ?thesis using assms by (simp add: respond_def)
next
  case True
  let ?rest = "take i (client s) @ drop (Suc i) (client s)"
  have count: "length (filter is_unregister_request ?rest) +
      (if is_unregister_request (client s ! i) then 1 else 0) = length (unregisters_in_flight s)"
    unfolding unregisters_in_flight_def using True by (rule filter_remove_nth)
  show ?thesis
  proof (cases "on_end (client s ! i)")
    case (SaveTokenEnd tok td d)
    then show ?thesis using assms True count
      by (auto simp: respond_def unregister_inv_def unregisters_in_flight_def split: if_splits)
  next
    case (UnregisterEnd r d)
    then show ?thesis using assms True count
      by (auto simp: respond_def unregister_inv_def unregisters_in_flight_def split: if_splits)
  qed
qed

lemma step_unregister_inv:
  assumes "unregister_inv s"
  shows "unregister_inv (step e s)"
proof (cases e)
  case CallRegister
  then show ?thesis using assms register_unreg [of s]
    by (simp add: unregister_inv_def unregisters_in_flight_def)
next
  case CallUnregister
  show ?thesis
  proof (cases "blockUnregister s")
    case True
    then show ?thesis using assms CallUnregister
      by (simp add: unregister_locked unregister_inv_def unregisters_in_flight_def)
  next
    case False
    then show ?thesis using assms CallUnregister unregister_unlocked [OF False]
      by (auto simp: unregister_inv_def unregisters_in_flight_def)
  qed
next
  case (CallSaveToken tok opts)
  then show ?thesis using assms saveToken_unreg [of tok opts s]
    by (simp add: unregister_inv_def)
next
  case (DeviceReady win)
  then show ?thesis using assms
    by (auto simp: unregister_inv_def unregisters_in_flight_def split: sum.splits
        dest!: emit_device_ready_unreg)
next
  case (PluginFires h ev)
  then show ?thesis using assms
    by (auto simp: unregister_inv_def unregisters_in_flight_def split: sum.splits
        dest!: plugin_fires_unreg)
next
  case (Response i err)
  then show ?thesis using assms by (simp add: respond_unregister_inv)
qed

lemma run_unregister_inv: "unregister_inv s \<Longrightarrow> unregister_inv (run es s)"
  by (induction es arbitrary: s) (simp_all add: step_unregister_inv)

lemma constructor_unregister_inv: "unregister_inv (constructor deps opts)"
  by (simp add: unregister_inv_def unregisters_in_flight_def constructor_def Let_def)

section \<open>The registration lock along a run\<close>

lemma promises_evolve_refl [simp]: "promises_evolve ps ps"
  by (simp add: promises_evolve_def)

lemma promises_evolve_trans: "promises_evolve ps ps' \<Longrightarrow> promises_evolve ps' ps'' \<Longrightarrow> promises_evolve ps ps''"
  by (auto simp: promises_evolve_def)

lemma promises_evolve_append [simp]: "promises_evolve ps (ps @ qs)"
  by (simp add: promises_evolve_def nth_append)

lemma promises_evolve_update: "v \<noteq> Pending \<Longrightarrow> promises_evolve ps (ps[d := v])"
  by (auto simp: promises_evolve_def) (metis nth_list_update_eq nth_list_update_neq)

lemma settle_evolve: "v \<noteq> Pending \<Longrightarrow> promises_evolve (promises s) (promises (settle d v s))"
  by (simp add: settle_def promises_evolve_update)

lemma settle_evolve':
  "v \<noteq> Pending \<Longrightarrow> promises_evolve ps (promises t) \<Longrightarrow> promises_evolve ps (promises (settle d v t))"
  by (blast intro: promises_evolve_trans settle_evolve)

lemma settle_not_pending: "v \<noteq> Pending \<Longrightarrow> \<not> promise_pending (settle d v s) d"
  by (auto simp: settle_def promise_pending_def)

lemma evolve_pending:
  "promises_evolve (promises s) (promises s') \<Longrightarrow> d < length (promises s) \<Longrightarrow>
   promise_pending s' d \<Longrightarrow> promise_pending s d"
  by (auto simp: promises_evolve_def promise_pending_def)

lemma length_filter_mono:
  "(\<And>x. x \<in> set xs \<Longrightarrow> P x \<Longrightarrow> Q x) \<Longrightarrow> length (filter P xs) \<le> length (filter Q xs)"
  by (induction xs) auto

text \<open>Any step that keeps subscriptions and lock, and lets the promises evolve, keeps the invariant.\<close>

lemma registration_inv_frame:
  assumes inv: "registration_inv s"
    and "emitter_once s' = emitter_once s" "plugin_handlers s' = plugin_handlers s"
    and "blockRegistration s' = blockRegistration s"
    and ev: "promises_evolve (promises s) (promises s')"
  shows "registration_inv s'"
proof -
  have adm: "admitted s' = admitted s"
    using assms by (simp add: admitted_def waiting_for_ready_def waiting_for_plugin_def)
  have bound: "list_all (\<lambda>d. d < length (promises s)) (admitted s)"
    using inv by (simp add: registration_inv_def)
  then have bound': "list_all (\<lambda>d. d < length (promises s')) (admitted s')"
    using ev adm by (auto simp: list_all_iff promises_evolve_def)
  have "length (filter (promise_pending s') (admitted s)) \<le> length (filter (promise_pending s) (admitted s))"
  proof (rule length_filter_mono)
    fix d assume "d \<in> set (admitted s)" "promise_pending s' d"
    then show "promise_pending s d" using bound ev by (auto simp: list_all_iff intro: evolve_pending)
  qed
  then show ?thesis using inv bound' adm assms(4)
    by (simp add: registration_inv_def registrations_in_flight_def)
qed


lemma new_deferred_evolve:
  "promises_evolve (promises s) (promises (snd (new_deferred s)))"
  by (simp add: new_deferred_def)

lemma settle_new [simp]:
  "reject (length (promises s)) e (s\<lparr>promises := promises s @ [Pending]\<rparr>) =
     s\<lparr>promises := promises s @ [Rejected e]\<rparr>"
  "resolve (length (promises s)) v (s\<lparr>promises := promises s @ [Pending]\<rparr>) =
     s\<lparr>promises := promises s @ [Resolved v]\<rparr>"
  by (simp_all add: reject_def resolve_def settle_def promise_pending_def)

lemma saveToken_reg:
  "emitter_once (snd (saveToken tok opts s)) = emitter_once s"
  "plugin_handlers (snd (saveToken tok opts s)) = plugin_handlers s"
  "blockRegistration (snd (saveToken tok opts s)) = blockRegistration s"
  "promises_evolve (promises s) (promises (snd (saveToken tok opts s)))"
  by (simp_all add: saveToken_def new_deferred_def Let_def)

lemma unregister_reg:
  assumes "unregister s = Inr (d, s')"
  shows "emitter_once s' = emitter_once s \<and> plugin_handlers s' = plugin_handlers s \<and>
         blockRegistration s' = blockRegistration s \<and> promises_evolve (promises s) (promises s')"
proof (cases "blockUnregister s")
  case True
  then show ?thesis using assms by (auto simp: unregister_locked)
next
  case False
  then show ?thesis using assms unfolding unregister_def new_deferred_def token_get_def Let_def
    by (cases "priv_token s"; cases "storage s ''push_token''"; cases "plugin s") auto
qed

lemma end_callback_reg:
  "emitter_once (run_end_callback cb err s) = emitter_once s"
  "plugin_handlers (run_end_callback cb err s) = plugin_handlers s"
  "blockRegistration (run_end_callback cb err s) = blockRegistration s"
  "promises_evolve (promises s) (promises (run_end_callback cb err s))"
proof -
  show "promises_evolve (promises s) (promises (run_end_callback cb err s))"
  proof (cases cb)
    case (SaveTokenEnd tok td d)
    show ?thesis
    proof (cases err)
      case None
      let ?t = "(s\<lparr>blockSaveToken := False,
              logger := logger s @ [LogInfo (''Ionic Push: saved push token: '' @ PushToken_toString (heap s tok))]\<rparr>)"
      show ?thesis using SaveTokenEnd None
        by (auto simp: saveToken_end_def resolve_def Let_def split: option.splits
            intro!: settle_evolve [THEN promises_evolve_trans [rotated]])
    next
      case (Some e)
      then show ?thesis using SaveTokenEnd
        by (auto simp: saveToken_end_def reject_def Let_def
            intro!: settle_evolve [THEN promises_evolve_trans [rotated]])
    qed
  next
    case (UnregisterEnd r d)
    then show ?thesis
      by (auto simp: unregister_end_def resolve_def reject_def Let_def split: option.splits
          intro!: settle_evolve [THEN promises_evolve_trans [rotated]])
  qed
qed (cases cb; simp add: saveToken_end_def unregister_end_def resolve_def reject_def Let_def
      split: option.splits)+


lemma evolve_not_pending:
  "promises_evolve (promises s) (promises s') \<Longrightarrow> length (promises s') = length (promises s) \<Longrightarrow>
   \<not> promise_pending s d \<Longrightarrow> \<not> promise_pending s' d"
  by (auto simp: promises_evolve_def promise_pending_def)

subsection \<open>The device-ready closures\<close>

lemma register_on_ready_reg:
  assumes "register_on_ready d win s = Inr s'"
  shows "emitter_once s' = emitter_once s \<and> blockRegistration s' = blockRegistration s \<and>
         length (promises s') = length (promises s) \<and>
         promises_evolve (promises s) (promises s') \<and>
         waiting_for_plugin s' = waiting_for_plugin s @ (if win then [d] else [])"
proof (cases win)
  case True
  then show ?thesis using assms
    by (auto simp: register_on_ready_def getPushPlugin_def plugin_on_def callbackRegistration_def
        waiting_for_plugin_def handlers_deferred_def Let_def)
next
  case False
  show ?thesis using assms False
    by (auto simp: register_on_ready_def getPushPlugin_def waiting_for_plugin_def reject_def Let_def
        split: if_splits intro!: settle_evolve')
qed

lemma register_on_ready_total: "\<exists>s'. register_on_ready d win s = Inr s'"
  by (simp add: register_on_ready_def getPushPlugin_def plugin_on_def callbackRegistration_def Let_def)

lemma run_once_handlers_reg:
  "run_once_handlers fs win s = Inr s' \<Longrightarrow>
     emitter_once s' = emitter_once s \<and> blockRegistration s' = blockRegistration s \<and>
     length (promises s') = length (promises s) \<and>
     promises_evolve (promises s) (promises s') \<and>
     waiting_for_plugin s' = waiting_for_plugin s @ (if win then map closure_deferred fs else [])"
proof (induction fs win s rule: run_once_handlers.induct)
  case (1 win s)
  then show ?case by simp
next
  case (2 d fs win s)
  from register_on_ready_total obtain s1 where s1: "register_on_ready d win s = Inr s1" by blast
  with "2.prems" have rest: "run_once_handlers fs win s1 = Inr s'" by simp
  from register_on_ready_reg [OF s1] "2.IH" [OF s1 rest] show ?case
    by (auto intro: promises_evolve_trans)
qed

lemma run_once_handlers_total: "\<exists>s'. run_once_handlers fs win s = Inr s'"
proof (induction fs win s rule: run_once_handlers.induct)
  case (1 win s)
  then show ?case by simp
next
  case (2 d fs win s)
  from register_on_ready_total obtain s1 where s1: "register_on_ready d win s = Inr s1" by blast
  with "2.IH" [OF s1] show ?case by simp
qed

lemma length_filter_partition:
  "length (filter P (map f xs)) =
   length (filter P (map f (filter Q xs))) + length (filter P (map f (filter (\<lambda>x. \<not> Q x) xs)))"
  by (induction xs) auto

lemma emit_device_ready_inv:
  assumes inv: "registration_inv s" and run: "emit_device_ready win s = Inr s'"
  shows "registration_inv s'"
proof -
  let ?ready = "filter (\<lambda>(name, f). name = ''device:ready'') (emitter_once s)"
  let ?other = "filter (\<lambda>(name, f). name \<noteq> ''device:ready'') (emitter_once s)"
  let ?cd = "\<lambda>(name, f). closure_deferred f"
  let ?P = "promise_pending s" and ?P' = "promise_pending s'"
  from run have run': "run_once_handlers (map snd ?ready) win (s\<lparr>emitter_once := ?other\<rparr>) = Inr s'"
    by (simp add: emit_device_ready_def)
  note facts = run_once_handlers_reg [OF run']
  have once: "emitter_once s' = ?other" and lock: "blockRegistration s' = blockRegistration s"
    and len: "length (promises s') = length (promises s)"
    and ev: "promises_evolve (promises s) (promises s')"
    using facts by simp_all
  have "map closure_deferred (map snd ?ready) = map ?cd ?ready"
    by (simp add: case_prod_unfold)
  then have wp: "waiting_for_plugin s' = waiting_for_plugin s @ (if win then map ?cd ?ready else [])"
    using facts by (simp add: waiting_for_plugin_def)
  have wr: "waiting_for_ready s' = map ?cd ?other" using once by (simp add: waiting_for_ready_def)
  have other_eq: "?other = filter (\<lambda>x. \<not> (case x of (name, f) \<Rightarrow> name = ''device:ready'')) (emitter_once s)"
    by (simp add: case_prod_unfold)
  have bound: "list_all (\<lambda>d. d < length (promises s)) (admitted s)"
    using inv by (simp add: registration_inv_def)
  have sub: "set (admitted s') \<subseteq> set (admitted s)"
    using wp wr by (auto simp: admitted_def waiting_for_ready_def split: if_splits)
  then have bound': "list_all (\<lambda>d. d < length (promises s')) (admitted s')"
    using bound len by (auto simp: list_all_iff)
  have mono: "length (filter ?P' xs) \<le> length (filter ?P xs)" if "set xs \<subseteq> set (admitted s)" for xs
  proof (rule length_filter_mono)
    fix d assume "d \<in> set xs" "?P' d"
    with that bound ev show "?P d" by (auto simp: list_all_iff intro: evolve_pending)
  qed
  have split: "length (filter ?P (waiting_for_ready s)) =
      length (filter ?P (map ?cd ?ready)) + length (filter ?P (map ?cd ?other))"
    unfolding waiting_for_ready_def other_eq by (rule length_filter_partition)
  have "length (filter ?P' (admitted s')) \<le>
      length (filter ?P' (map ?cd ?other)) + length (filter ?P' (waiting_for_plugin s)) +
      length (filter ?P' (map ?cd ?ready))"
    using wp wr by (simp add: admitted_def)
  also have "\<dots> \<le> length (filter ?P (map ?cd ?other)) + length (filter ?P (waiting_for_plugin s)) +
      length (filter ?P (map ?cd ?ready))"
  proof -
    have "set (map ?cd ?other) \<subseteq> set (admitted s)" "set (waiting_for_plugin s) \<subseteq> set (admitted s)"
      "set (map ?cd ?ready) \<subseteq> set (admitted s)"
      by (auto simp: admitted_def waiting_for_ready_def)
    from this [THEN mono] show ?thesis by linarith
  qed
  also have "\<dots> = length (filter ?P (admitted s))"
    using split by (simp add: admitted_def)
  finally have "length (registrations_in_flight s') \<le> length (registrations_in_flight s)"
    by (simp add: registrations_in_flight_def)
  then show ?thesis using inv bound' lock
    by (auto simp: registration_inv_def split: if_splits)
qed


subsection \<open>The plugin closures\<close>

lemma register_resolve_reg:
  assumes "register_resolve d rid s = Inr s'"
  shows "emitter_once s' = emitter_once s \<and> plugin_handlers s' = plugin_handlers s \<and>
         length (promises s') = length (promises s) \<and>
         promises_evolve (promises s) (promises s') \<and> \<not> promise_pending s' d"
  using assms
  by (auto simp: register_resolve_def mark_registered_def alloc_PushToken_def resolve_def Let_def
      settle_not_pending
      split: sum.splits option.splits prod.splits dest!: token_get_frame intro!: settle_evolve')

lemma callback_registration_reg:
  assumes "callback_registration rid s = Inr s'"
  shows "emitter_once s' = emitter_once s \<and> plugin_handlers s' = plugin_handlers s \<and>
         promises s' = promises s \<and> blockRegistration s' = blockRegistration s"
  using assms
  by (auto simp: callback_registration_def alloc_PushToken_def Let_def
      split: sum.splits option.splits prod.splits if_splits dest!: token_get_frame)

lemma run_plugin_handler_reg:
  assumes "run_plugin_handler f ev s = Inr s'"
  shows "emitter_once s' = emitter_once s \<and> plugin_handlers s' = plugin_handlers s \<and>
         length (promises s') = length (promises s) \<and>
         promises_evolve (promises s) (promises s') \<and>
         (handler_deferred f = [] \<or> event_name ev \<noteq> ''registration'' \<longrightarrow>
            blockRegistration s' = blockRegistration s \<and> promises s' = promises s) \<and>
         (event_name ev = ''registration'' \<longrightarrow> (\<forall>d \<in> set (handler_deferred f). \<not> promise_pending s' d))"
  using assms
  by (cases "(f, ev, s)" rule: run_plugin_handler.cases)
     (auto dest: register_resolve_reg callback_registration_reg)

lemma run_plugin_handlers_reg:
  "run_plugin_handlers fs ev s = Inr s' \<Longrightarrow>
     emitter_once s' = emitter_once s \<and> plugin_handlers s' = plugin_handlers s \<and>
     length (promises s') = length (promises s) \<and>
     promises_evolve (promises s) (promises s') \<and>
     (handlers_deferred fs = [] \<or> event_name ev \<noteq> ''registration'' \<longrightarrow>
        blockRegistration s' = blockRegistration s \<and> promises s' = promises s) \<and>
     (event_name ev = ''registration'' \<longrightarrow> (\<forall>d \<in> set (handlers_deferred fs). \<not> promise_pending s' d))"
proof (induction fs arbitrary: s)
  case Nil
  then show ?case by (simp add: handlers_deferred_def)
next
  case (Cons f fs)
  from Cons.prems obtain s1 where f: "run_plugin_handler f ev s = Inr s1"
    and fs: "run_plugin_handlers fs ev s1 = Inr s'"
    by (auto split: sum.splits)
  note one = run_plugin_handler_reg [OF f] and rest = Cons.IH [OF fs]
  have "\<not> promise_pending s' d" if "event_name ev = ''registration''" "d \<in> set (handler_deferred f)" for d
  proof -
    from one that have "\<not> promise_pending s1 d" by blast
    with rest evolve_not_pending [of s1 s' d] show ?thesis by simp
  qed
  with one rest show ?case
    by (auto simp: handlers_deferred_def intro: promises_evolve_trans)
qed

lemma plugin_fires_inv:
  assumes inv: "registration_inv s" and run: "plugin_fires h ev s = Inr s'"
    and timely: "timely (PluginFires h ev) s"
  shows "registration_inv s'"
proof -
  let ?fs = "subscribed h (event_name ev) s"
  note facts = run_plugin_handlers_reg [OF run [unfolded plugin_fires_def]]
  show ?thesis
  proof (cases "handlers_deferred ?fs = [] \<or> event_name ev \<noteq> ''registration''")
    case True
    with facts inv show ?thesis by (auto intro: registration_inv_frame)
  next
    case False
    from False have name: "event_name ev = ''registration''" by simp
    from False have some: "handlers_deferred ?fs \<noteq> []" by blast
    from name obtain rid where ev: "ev = Registration rid" by (cases ev) simp_all
    from some obtain d where d: "d \<in> set (handlers_deferred ?fs)" by (cases "handlers_deferred ?fs") auto
    have adm: "admitted s' = admitted s"
      using facts by (simp add: admitted_def waiting_for_ready_def waiting_for_plugin_def)
    have bound: "list_all (\<lambda>d. d < length (promises s)) (admitted s)"
      using inv by (simp add: registration_inv_def)
    have settled: "\<not> promise_pending s' x" if "x \<in> set (handlers_deferred ?fs)" for x
      using facts name that by blast
    have sub: "set (handlers_deferred ?fs) \<subseteq> set (admitted s)"
      by (auto simp: admitted_def waiting_for_plugin_def handlers_deferred_def subscribed_def)
    have pend: "promise_pending s x" if "x \<in> set (handlers_deferred ?fs)" for x
      using timely that by (simp add: ev list_all_iff)
    have "length (registrations_in_flight s) \<le> 1"
      using inv by (auto simp: registration_inv_def split: if_splits)
    moreover have "d \<in> set (registrations_in_flight s)"
      using d sub pend by (auto simp: registrations_in_flight_def)
    ultimately have only: "set (registrations_in_flight s) = {d}"
      by (cases "registrations_in_flight s") auto
    have "registrations_in_flight s' = []"
    proof (rule ccontr)
      assume "registrations_in_flight s' \<noteq> []"
      then obtain x where "x \<in> set (registrations_in_flight s')"
        by (cases "registrations_in_flight s'") auto
      then have x: "x \<in> set (admitted s)" "promise_pending s' x"
        using adm by (simp_all add: registrations_in_flight_def)
      then have "promise_pending s x"
        using bound facts by (auto simp: list_all_iff intro: evolve_pending)
      with x have "x \<in> set (registrations_in_flight s)" by (simp add: registrations_in_flight_def)
      with only have "x = d" by simp
      with x d settled show False by blast
    qed
    then show ?thesis using bound adm facts
      by (auto simp: registration_inv_def list_all_iff)
  qed
qed


subsection \<open>register, and all steps\<close>

lemma register_locked:
  "blockRegistration s \<Longrightarrow>
   register s =
     (length (promises s),
      s\<lparr>promises := promises s @ [Rejected (Error ''Another registration is already in progress.'')]\<rparr>)"
  by (simp add: register_def new_deferred_def Let_def)

lemma register_unlocked:
  "\<not> blockRegistration s \<Longrightarrow>
   register s =
     (length (promises s),
      s\<lparr>promises := promises s @ [Pending], blockRegistration := True,
        emitter_once := emitter_once s @ [(''device:ready'', RegisterOnReady (length (promises s)))]\<rparr>)"
  by (simp add: register_def new_deferred_def Let_def)

lemma pending_append:
  "d < length (promises s) \<Longrightarrow> promises s' = promises s @ qs \<Longrightarrow>
   promise_pending s' d = promise_pending s d"
  by (simp add: promise_pending_def nth_append)

lemma register_inv:
  assumes inv: "registration_inv s"
  shows "registration_inv (snd (register s))"
proof (cases "blockRegistration s")
  case True
  show ?thesis
    by (rule registration_inv_frame [OF inv]) (simp_all add: register_locked [OF True])
next
  case False
  let ?d = "length (promises s)"
  let ?s' = "snd (register s)"
  have s': "promises ?s' = promises s @ [Pending]" "blockRegistration ?s'"
    "waiting_for_ready ?s' = waiting_for_ready s @ [?d]"
    "waiting_for_plugin ?s' = waiting_for_plugin s"
    by (simp_all add: register_unlocked [OF False] waiting_for_ready_def waiting_for_plugin_def)
  have bound: "list_all (\<lambda>d. d < length (promises s)) (admitted s)"
    using inv by (simp add: registration_inv_def)
  have none: "filter (promise_pending s) (admitted s) = []"
    using inv False by (simp add: registration_inv_def registrations_in_flight_def)
  have same: "filter (promise_pending ?s') xs = filter (promise_pending s) xs"
    if "set xs \<subseteq> set (admitted s)" for xs
  proof (rule filter_cong [OF refl])
    fix d assume "d \<in> set xs"
    with that bound have "d < length (promises s)" by (auto simp: list_all_iff)
    then show "promise_pending ?s' d = promise_pending s d" using s'(1) by (rule pending_append)
  qed
  have "filter (promise_pending ?s') (waiting_for_ready s) = []"
    "filter (promise_pending ?s') (waiting_for_plugin s) = []"
    using none same [of "waiting_for_ready s"] same [of "waiting_for_plugin s"]
    by (simp_all add: admitted_def)
  then have "length (registrations_in_flight ?s') \<le> 1"
    using s' by (simp add: registrations_in_flight_def admitted_def)
  moreover have "list_all (\<lambda>d. d < length (promises ?s')) (admitted ?s')"
    using bound s' by (fastforce simp: admitted_def list_all_iff intro: less_SucI)
  ultimately show ?thesis using s'(2) by (simp add: registration_inv_def)
qed

lemma step_registration_inv:
  assumes inv: "registration_inv s" and timely: "timely e s"
  shows "registration_inv (step e s)"
proof (cases e)
  case CallRegister
  then show ?thesis using inv by (simp add: register_inv)
next
  case CallUnregister
  show ?thesis
  proof (cases "unregister s")
    case (Inl err)
    then show ?thesis using inv CallUnregister by simp
  next
    case (Inr res)
    obtain d s' where res: "res = (d, s')" by (cases res)
    from unregister_reg [OF Inr [unfolded res]] inv have "registration_inv s'"
      by (auto intro: registration_inv_frame)
    then show ?thesis using CallUnregister Inr res by simp
  qed
next
  case (CallSaveToken tok opts)
  have "registration_inv (snd (saveToken tok opts s))"
    by (rule registration_inv_frame [OF inv]) (rule saveToken_reg)+
  then show ?thesis using CallSaveToken by simp
next
  case (DeviceReady win)
  then show ?thesis using inv by (auto split: sum.splits intro: emit_device_ready_inv)
next
  case (PluginFires h ev)
  then show ?thesis using inv timely by (auto split: sum.splits intro: plugin_fires_inv)
next
  case (Response i err)
  show ?thesis
  proof (cases "i < length (client s)")
    case True
    let ?t = "s\<lparr>client := take i (client s) @ drop (Suc i) (client s)\<rparr>"
    note cb = end_callback_reg [where cb = "on_end (client s ! i)" and err = err and s = ?t]
    have "registration_inv (run_end_callback (on_end (client s ! i)) err ?t)"
      by (rule registration_inv_frame [OF inv]) (use cb in simp_all)
    then show ?thesis using Response True by (simp add: respond_def)
  next
    case False
    then show ?thesis using Response inv by (simp add: respond_def)
  qed
qed

lemma run_registration_inv:
  "registration_inv s \<Longrightarrow> orderly es s \<Longrightarrow> registration_inv (run es s)"
  by (induction es arbitrary: s) (simp_all add: step_registration_inv)

lemma constructor_registration_inv: "registration_inv (constructor deps opts)"
  by (simp add: registration_inv_def registrations_in_flight_def admitted_def waiting_for_ready_def
      waiting_for_plugin_def handlers_deferred_def constructor_def Let_def)

section \<open>The token getter\<close>

text \<open>
  C10.  When the cache \<^verbatim>\<open>_token\<close> is empty and storage holds no record under
  \<^verbatim>\<open>push_token\<close>, the getter reads \<^verbatim>\<open>.token\<close> of the absent record: it raises a
  TypeError and returns no PushToken.
\<close>

theorem token_get_raises_without_record:
  "priv_token s = None \<Longrightarrow> storage s ''push_token'' = None \<Longrightarrow> token_get s = Inl TypeError"
  by (simp add: token_get_def)

text \<open>The state after a successful unregister is such a state.\<close>

theorem token_get_raises_without_record_witness:
  "priv_token (run [CallUnregister, Response 0 None] registered_push) = None \<and>
   storage (run [CallUnregister, Response 0 None] registered_push) ''push_token'' = None \<and>
   token_get (run [CallUnregister, Response 0 None] registered_push) = Inl TypeError"
proof -
  have empty:
    "priv_token (run [CallUnregister, Response 0 None] registered_push) = None"
    "storage (run [CallUnregister, Response 0 None] registered_push) ''push_token'' = None"
    by (simp_all add: example_defs op_defs Let_def)
  from token_get_raises_without_record [OF empty] empty show ?thesis by simp
qed

text \<open>
  What the getter returns is \<^verbatim>\<open>this._token\<close> after it has been filled, so never null:
  the test \<^verbatim>\<open>!pushToken\<close> of unregister cannot succeed.
\<close>

lemma token_get_not_null: "token_get s = Inr (v, s') \<Longrightarrow> v \<noteq> None"
  unfolding token_get_def Let_def
  by (cases "priv_token s"; cases "storage s ''push_token''") (auto dest: sym)

lemma token_get_cases:
  "token_get s = Inl TypeError \<and> priv_token s = None \<and> storage s ''push_token'' = None
   \<or> (\<exists>r s'. token_get s = Inr (Some r, s') \<and> priv_token s' = Some r)"
  unfolding token_get_def Let_def
  by (cases "priv_token s"; cases "storage s ''push_token''") (auto dest: sym)

section \<open>unregister without a token\<close>

text \<open>
  C5.  On a coordinator with no cached token and no stored record, unregister() does not
  resolve: the getter raises, and so does unregister, before any promise is returned
  (and before any request is sent).
\<close>

theorem unregister_without_token_raises:
  "priv_token fresh_push = None \<and> storage fresh_push ''push_token'' = None \<and>
   \<not> blockUnregister fresh_push \<and> unregister fresh_push = Inl TypeError"
  by (simp add: example_defs op_defs Let_def)

lemma unregister_raises_without_record:
  "\<not> blockUnregister s \<Longrightarrow> priv_token s = None \<Longrightarrow> storage s ''push_token'' = None \<Longrightarrow>
   unregister s = Inl TypeError"
  by (simp add: unregister_def new_deferred_def token_get_def Let_def)

text \<open>The example coordinator while its unregister request is open.\<close>

lemma unregistering_push_state:
  "unregister registered_push = Inr (1, unregistering_push)"
  "promises unregistering_push = [Resolved (Some 0), Pending]"
  "length (client unregistering_push) = 1"
  "is_unregister_request (client unregistering_push ! 0)"
  "unregisters_in_flight unregistering_push \<noteq> []"
  "priv_token unregistering_push = Some 1"
  "storage unregistering_push ''push_token'' = Some \<lparr>so_token = ''abc123''\<rparr>"
proof -
  have idle: "\<not> blockUnregister registered_push" by (rule registered_push_state)
  from unregister_unlocked [OF idle]
  obtain r s' where call: "unregister registered_push = Inr (length (promises registered_push), s')"
    and s': "client s' = client registered_push @
           [\<lparr>path = ''/push/tokens/invalidate'',
             body = \<lparr>td_token = token (heap s' r), app_id = Config_get (config registered_push) ''app_id'', user_id = None\<rparr>,
             on_end = UnregisterEnd r (length (promises registered_push))\<rparr>]"
      "priv_token s' = Some r" "storage s' = storage registered_push"
      "promises s' = promises registered_push @ [Pending]"
      "\<forall>r'. priv_token registered_push = Some r' \<longrightarrow> r' = r \<and> heap s' = heap registered_push"
    by (auto simp: registered_push_state)
  from call have eq: "unregistering_push = s'" by (simp add: unregistering_push_def)
  from s'(5) have r: "r = 1" by (simp add: registered_push_state)
  show "unregister registered_push = Inr (1, unregistering_push)"
    using call eq by (simp add: registered_push_state)
  show "promises unregistering_push = [Resolved (Some 0), Pending]"
    using s'(4) eq by (simp add: registered_push_state)
  show "length (client unregistering_push) = 1" "is_unregister_request (client unregistering_push ! 0)"
    "unregisters_in_flight unregistering_push \<noteq> []"
    using s'(1) eq by (simp_all add: registered_push_state unregisters_in_flight_def)
  show "priv_token unregistering_push = Some 1" using s'(2) eq r by simp
  show "storage unregistering_push ''push_token'' = Some \<lparr>so_token = ''abc123''\<rparr>"
    using s'(3) eq by (simp add: registered_push_state)
qed

section \<open>register when the plugin is absent\<close>

text \<open>
  C2.  register(), then \<^verbatim>\<open>device:ready\<close> with no \<^verbatim>\<open>window.PushNotification\<close>: the promise is
  rejected with ``Push plugin not found'', the registration lock stays set, and the next
  register() is rejected as if a registration were in progress, although none is.
\<close>

theorem register_plugin_absent_keeps_lock:
  "promises (run [CallRegister, DeviceReady False] fresh_push) =
     [Rejected (Error ''Push plugin not found! See logs.'')] \<and>
   blockRegistration (run [CallRegister, DeviceReady False] fresh_push) \<and>
   registrations_in_flight (run [CallRegister, DeviceReady False] fresh_push) = [] \<and>
   promises (run [CallRegister, DeviceReady False, CallRegister] fresh_push) =
     [Rejected (Error ''Push plugin not found! See logs.''),
      Rejected (Error ''Another registration is already in progress.'')]"
  by (simp add: example_defs op_defs Let_def)

lemma register_on_ready_absent_lock:
  "register_on_ready d False s = Inr s' \<Longrightarrow> blockRegistration s' = blockRegistration s"
  by (auto simp: register_on_ready_def getPushPlugin_def reject_def settle_def Let_def
      split: if_splits)

section \<open>Single flight of register\<close>

text \<open>
  C1.  The closure that register() subscribes to the plugin's \<^verbatim>\<open>registration\<close> event is
  subscribed with \<^verbatim>\<open>plugin.on\<close> and never removed, and it clears \<^verbatim>\<open>blockRegistration\<close>
  each time the event fires.  register(), \<^verbatim>\<open>device:ready\<close>, a registration event, a
  second register(), and a second registration event on the same handle: the stale
  closure of the first call clears the lock the second call holds, with the second
  still waiting for \<^verbatim>\<open>device:ready\<close>.  A third register() is then admitted instead of
  rejected, and two registrations are in flight.
\<close>

theorem register_admitted_while_in_flight:
  "registrations_in_flight
     (run [CallRegister, DeviceReady True, PluginFires 0 (Registration ''a''), CallRegister,
           PluginFires 0 (Registration ''b'')] fresh_push) = [1] \<and>
   \<not> blockRegistration
     (run [CallRegister, DeviceReady True, PluginFires 0 (Registration ''a''), CallRegister,
           PluginFires 0 (Registration ''b'')] fresh_push) \<and>
   promises
     (run [CallRegister, DeviceReady True, PluginFires 0 (Registration ''a''), CallRegister,
           PluginFires 0 (Registration ''b''), CallRegister] fresh_push) =
       [Resolved (Some 0), Pending, Pending] \<and>
   registrations_in_flight
     (run [CallRegister, DeviceReady True, PluginFires 0 (Registration ''a''), CallRegister,
           PluginFires 0 (Registration ''b''), CallRegister] fresh_push) = [1, 2]"
  by (simp add: example_defs op_defs Let_def)

text \<open>
  What the guard does achieve.  A register() call made while the lock is set is rejected
  at once and changes nothing but the table of promises.  Along a run in which every
  registration event is timely, the lock is set while a registration is in flight, and
  at most one is.
\<close>

lemma registration_lock_in_orderly_runs:
  assumes "orderly es (constructor deps opts)" and "s = run es (constructor deps opts)"
  shows "length (registrations_in_flight s) \<le> 1 \<and>
         (registrations_in_flight s \<noteq> [] \<longrightarrow> blockRegistration s) \<and>
         (blockRegistration s \<longrightarrow>
            register s =
              (length (promises s),
               s\<lparr>promises := promises s @
                    [Rejected (Error ''Another registration is already in progress.'')]\<rparr>))"
proof -
  have "registration_inv s"
    using assms by (simp add: run_registration_inv constructor_registration_inv)
  then show ?thesis
    by (auto simp: registration_inv_def register_locked split: if_splits)
qed

lemma registration_lock_in_orderly_runs_example:
  "orderly [CallRegister, DeviceReady True] fresh_push \<and>
   registrations_in_flight (run [CallRegister, DeviceReady True] fresh_push) = [0] \<and>
   blockRegistration (run [CallRegister, DeviceReady True] fresh_push) \<and>
   promises (snd (register (run [CallRegister, DeviceReady True] fresh_push))) =
     [Pending, Rejected (Error ''Another registration is already in progress.'')]"
proof -
  let ?s = "run [CallRegister, DeviceReady True] fresh_push"
  have ord: "orderly [CallRegister, DeviceReady True] (constructor example_deps example_options)"
    by simp
  have run: "?s = run [CallRegister, DeviceReady True] (constructor example_deps example_options)"
    by (simp add: fresh_push_def)
  have flight: "registrations_in_flight ?s = [0]" and ps: "promises ?s = [Pending]"
    by (simp_all add: example_defs op_defs Let_def)
  from registration_lock_in_orderly_runs [OF ord run] flight have lock: "blockRegistration ?s"
    and rej: "register ?s = (length (promises ?s),
       ?s\<lparr>promises := promises ?s @ [Rejected (Error ''Another registration is already in progress.'')]\<rparr>)"
    by simp_all
  from rej ps have "promises (snd (register ?s)) =
     [Pending, Rejected (Error ''Another registration is already in progress.'')]"
    by simp
  with ord flight lock show ?thesis by (simp add: fresh_push_def)
qed

section \<open>The unregister lock\<close>

text \<open>
  C4.  In every state a coordinator can reach: an unregister() call that arrives when no
  unregister is in flight either raises (the getter found no token) with the lock clear,
  or sends the invalidate request, and the callback of that request clears the lock
  whenever it runs, with an error or without; no other exit exists, since the getter
  never returns null.  A call that arrives while one is in flight is rejected and changes
  nothing but the table of promises, so the request in flight and the lock are as they
  were, and the answer to that request still clears the lock.
\<close>

theorem unregister_lock_released:
  assumes "s = run es (constructor deps opts)"
  shows "(unregisters_in_flight s = [] \<longrightarrow>
            (unregister s = Inl TypeError \<and> \<not> blockUnregister s) \<or>
            (\<exists>s' req. unregister s = Inr (length (promises s), s') \<and>
                client s' = client s @ [req] \<and> unregisters_in_flight s' = [req] \<and>
                blockUnregister s' \<and>
                (\<forall>err. \<not> blockUnregister (respond (length (client s)) err s')) \<and>
                (\<forall>err t. \<not> blockUnregister (run_end_callback (on_end req) err t)))) \<and>
         (unregisters_in_flight s \<noteq> [] \<longrightarrow>
            unregister s =
              Inr (length (promises s),
                   s\<lparr>promises := promises s @
                        [Rejected (Error ''An unregister operation is already in progress.'')]\<rparr>) \<and>
            (\<forall>i err. i < length (client s) \<and> is_unregister_request (client s ! i) \<longrightarrow>
               \<not> blockUnregister
                  (respond i err
                     (s\<lparr>promises := promises s @
                          [Rejected (Error ''An unregister operation is already in progress.'')]\<rparr>))))"
proof -
  have inv: "unregister_inv s"
    using assms by (simp add: run_unregister_inv constructor_unregister_inv)
  show ?thesis
  proof (cases "blockUnregister s")
    case True
    with inv have busy: "unregisters_in_flight s \<noteq> []"
      by (auto simp: unregister_inv_def)
    have "\<not> blockUnregister (respond i err (s\<lparr>promises := ps\<rparr>))"
      if "i < length (client s)" "is_unregister_request (client s ! i)" for i err ps
      using that by (cases "on_end (client s ! i)") (simp_all add: respond_def)
    with True busy show ?thesis by (simp add: unregister_locked)
  next
    case False
    with inv have idle: "unregisters_in_flight s = []"
      by (simp add: unregister_inv_def)
    from unregister_unlocked [OF False] show ?thesis
    proof (elim disjE exE conjE)
      assume "unregister s = Inl TypeError"
      with False idle show ?thesis by simp
    next
      fix r s'
      assume res: "unregister s = Inr (length (promises s), s')"
        and cl: "client s' = client s @
           [\<lparr>path = ''/push/tokens/invalidate'',
             body = \<lparr>td_token = token (heap s' r), app_id = Config_get (config s) ''app_id'', user_id = None\<rparr>,
             on_end = UnregisterEnd r (length (promises s))\<rparr>]"
        and lock: "blockUnregister s'"
      let ?req = "\<lparr>path = ''/push/tokens/invalidate'',
             body = \<lparr>td_token = token (heap s' r), app_id = Config_get (config s) ''app_id'', user_id = None\<rparr>,
             on_end = UnregisterEnd r (length (promises s))\<rparr>"
      have "unregisters_in_flight s' = [?req]"
        using idle cl by (simp add: unregisters_in_flight_def)
      moreover have "\<not> blockUnregister (respond (length (client s)) err s')" for err
        using cl by (simp add: respond_def nth_append)
      moreover have "\<not> blockUnregister (run_end_callback (on_end ?req) err t)" for err t
        by simp
      ultimately show ?thesis using res cl lock idle by blast
    qed
  qed
qed

theorem unregister_lock_released_witness:
  "unregisters_in_flight registered_push = [] \<and>
   \<not> blockUnregister (respond 0 None unregistering_push) \<and>
   unregisters_in_flight unregistering_push \<noteq> [] \<and>
   promises (step CallUnregister unregistering_push) =
     [Resolved (Some 0), Pending, Rejected (Error ''An unregister operation is already in progress.'')] \<and>
   \<not> blockUnregister (respond 0 (Some (Error ''offline'')) (step CallUnregister unregistering_push))"
proof -
  let ?es = "[CallRegister, DeviceReady True, PluginFires 0 (Registration ''abc123'')]"
  have idle_run: "registered_push = run ?es (constructor example_deps example_options)"
    by (simp add: registered_push_def fresh_push_def)
  have busy_run: "unregistering_push = run (?es @ [CallUnregister]) (constructor example_deps example_options)"
    by (simp add: unregistering_push_def registered_push_def fresh_push_def)
  have idle: "unregisters_in_flight registered_push = []"
    by (simp add: unregisters_in_flight_def registered_push_state)
  note call = unregistering_push_state(1)
  from unregister_lock_released [OF idle_run] idle call
  have "\<forall>err. \<not> blockUnregister (respond (length (client registered_push)) err unregistering_push)"
    by auto
  then have first: "\<not> blockUnregister (respond 0 None unregistering_push)"
    by (simp add: registered_push_state)
  note busy = unregistering_push_state(5)
  from unregister_lock_released [OF busy_run] busy
  have rejected: "unregister unregistering_push =
      Inr (length (promises unregistering_push),
           unregistering_push\<lparr>promises := promises unregistering_push @
              [Rejected (Error ''An unregister operation is already in progress.'')]\<rparr>)"
    and later: "\<forall>i err. i < length (client unregistering_push) \<and>
          is_unregister_request (client unregistering_push ! i) \<longrightarrow>
        \<not> blockUnregister
          (respond i err
            (unregistering_push\<lparr>promises := promises unregistering_push @
              [Rejected (Error ''An unregister operation is already in progress.'')]\<rparr>))"
    by blast+
  from rejected have after: "step CallUnregister unregistering_push =
      unregistering_push\<lparr>promises := promises unregistering_push @
              [Rejected (Error ''An unregister operation is already in progress.'')]\<rparr>"
    by simp
  have second: "promises (step CallUnregister unregistering_push) =
     [Resolved (Some 0), Pending, Rejected (Error ''An unregister operation is already in progress.'')]"
    unfolding after by (simp add: unregistering_push_state)
  have third: "\<not> blockUnregister (respond 0 (Some (Error ''offline'')) (step CallUnregister unregistering_push))"
    unfolding after
    by (rule later [rule_format])
       (simp add: unregistering_push_state del: is_unregister_request.simps)
  from idle first busy second third show ?thesis by blast
qed

section \<open>The outcome of the invalidate request\<close>

lemma unregister_end_success:
  "priv_token (unregister_end r d None t) = None"
  "storage (unregister_end r d None t) ''push_token'' = None"
  "promise_pending t d \<Longrightarrow> promises (unregister_end r d None t) ! d = Resolved None"
  by (simp_all add: unregister_end_def resolve_def settle_def token_set_def promise_pending_def Let_def)

lemma unregister_end_failure:
  "priv_token (unregister_end r d (Some e) t) = priv_token t"
  "storage (unregister_end r d (Some e) t) = storage t"
  "heap (unregister_end r d (Some e) t) = heap t"
  "promise_pending t d \<Longrightarrow> promises (unregister_end r d (Some e) t) ! d = Rejected e"
  by (simp_all add: unregister_end_def reject_def settle_def promise_pending_def Let_def)

text \<open>
  C6.  An unregister() call that is admitted and returns has sent the invalidate request
  for the cached token, storage untouched.  When its callback runs without an error,
  \<^verbatim>\<open>_token\<close> and the stored record are cleared and the promise resolves; when it runs
  with an error, the promise is rejected with that error, and cache, storage and token
  objects are as they were.
\<close>

theorem unregister_remote_outcome:
  assumes "\<not> blockUnregister s" and "unregister s = Inr (d, s1)"
  shows "\<exists>r. priv_token s1 = Some r \<and> storage s1 = storage s \<and>
           (\<forall>r'. priv_token s = Some r' \<longrightarrow> r' = r \<and> heap s1 = heap s) \<and>
           client s1 = client s @
             [\<lparr>path = ''/push/tokens/invalidate'',
               body = \<lparr>td_token = token (heap s1 r), app_id = Config_get (config s) ''app_id'',
                        user_id = None\<rparr>,
               on_end = UnregisterEnd r d\<rparr>] \<and>
           promise_pending s1 d \<and>
           (\<forall>err. respond (length (client s)) err s1 = unregister_end r d err (s1\<lparr>client := client s\<rparr>)) \<and>
           (\<forall>t. promise_pending t d \<longrightarrow>
              priv_token (unregister_end r d None t) = None \<and>
              storage (unregister_end r d None t) ''push_token'' = None \<and>
              promises (unregister_end r d None t) ! d = Resolved None \<and>
              (\<forall>e. promises (unregister_end r d (Some e) t) ! d = Rejected e \<and>
                   priv_token (unregister_end r d (Some e) t) = priv_token t \<and>
                   storage (unregister_end r d (Some e) t) = storage t \<and>
                   heap (unregister_end r d (Some e) t) = heap t))"
proof -
  from unregister_unlocked [OF assms(1)] assms(2)
  obtain r where d: "d = length (promises s)"
    and cl: "client s1 = client s @
           [\<lparr>path = ''/push/tokens/invalidate'',
             body = \<lparr>td_token = token (heap s1 r), app_id = Config_get (config s) ''app_id'', user_id = None\<rparr>,
             on_end = UnregisterEnd r (length (promises s))\<rparr>]"
    and tok: "priv_token s1 = Some r" and st: "storage s1 = storage s"
    and ps: "promises s1 = promises s @ [Pending]"
    and same: "\<forall>r'. priv_token s = Some r' \<longrightarrow> r' = r \<and> heap s1 = heap s"
    by auto
  have pend: "promise_pending s1 d" using d ps by (simp add: promise_pending_def)
  have resp: "respond (length (client s)) err s1 = unregister_end r d err (s1\<lparr>client := client s\<rparr>)" for err
    using cl d by (simp add: respond_def)
  show ?thesis
    using tok st same cl d pend resp
    by (intro exI [of _ r]) (simp add: unregister_end_success unregister_end_failure)
qed

theorem unregister_remote_outcome_witness:
  "\<not> blockUnregister registered_push \<and>
   unregister registered_push = Inr (1, unregistering_push) \<and>
   promise_pending unregistering_push 1 \<and>
   priv_token (respond 0 None unregistering_push) = None \<and>
   storage (respond 0 None unregistering_push) ''push_token'' = None \<and>
   promises (respond 0 None unregistering_push) ! 1 = Resolved None \<and>
   promises (respond 0 (Some (Error ''offline'')) unregistering_push) ! 1 = Rejected (Error ''offline'') \<and>
   priv_token (respond 0 (Some (Error ''offline'')) unregistering_push) = Some 1 \<and>
   storage (respond 0 (Some (Error ''offline'')) unregistering_push) ''push_token'' =
     Some \<lparr>so_token = ''abc123''\<rparr>"
proof -
  let ?t = "unregistering_push\<lparr>client := client registered_push\<rparr>"
  let ?e = "Error ''offline''"
  have idle: "\<not> blockUnregister registered_push" by (rule registered_push_state)
  note call = unregistering_push_state(1)
  from unregister_remote_outcome [OF idle call]
  obtain r where tok: "priv_token unregistering_push = Some r"
    and pend: "promise_pending unregistering_push 1"
    and resp: "\<forall>err. respond (length (client registered_push)) err unregistering_push =
                 unregister_end r 1 err ?t"
    and out: "\<forall>t. promise_pending t 1 \<longrightarrow>
              priv_token (unregister_end r 1 None t) = None \<and>
              storage (unregister_end r 1 None t) ''push_token'' = None \<and>
              promises (unregister_end r 1 None t) ! 1 = Resolved None \<and>
              (\<forall>e. promises (unregister_end r 1 (Some e) t) ! 1 = Rejected e \<and>
                   priv_token (unregister_end r 1 (Some e) t) = priv_token t \<and>
                   storage (unregister_end r 1 (Some e) t) = storage t \<and>
                   heap (unregister_end r 1 (Some e) t) = heap t)"
    by blast
  have pend': "promise_pending ?t 1" using pend by (simp add: promise_pending_def)
  have ok: "respond 0 None unregistering_push = unregister_end r 1 None ?t"
    and ko: "respond 0 (Some ?e) unregistering_push = unregister_end r 1 (Some ?e) ?t"
    using resp by (simp_all add: registered_push_state)
  from out [rule_format, OF pend']
  have success: "priv_token (unregister_end r 1 None ?t) = None"
      "storage (unregister_end r 1 None ?t) ''push_token'' = None"
      "promises (unregister_end r 1 None ?t) ! 1 = Resolved None"
    and failure: "promises (unregister_end r 1 (Some ?e) ?t) ! 1 = Rejected ?e"
      "priv_token (unregister_end r 1 (Some ?e) ?t) = priv_token ?t"
      "storage (unregister_end r 1 (Some ?e) ?t) = storage ?t"
    by blast+
  have kept: "priv_token ?t = Some 1" "storage ?t ''push_token'' = Some \<lparr>so_token = ''abc123''\<rparr>"
    by (simp_all add: unregistering_push_state)
  show ?thesis
    unfolding ok ko using idle call pend success failure kept by simp
qed

section \<open>The registration event\<close>

lemma register_resolve_eq:
  "register_resolve d t s =
     Inr (resolve d (Some (next_ref s))
            (s\<lparr>blockRegistration := False,
               heap := (heap s)(next_ref s := \<lparr>token = t, registered = True, saved = False\<rparr>),
               next_ref := Suc (next_ref s),
               storage := (storage s)(''push_token'' \<mapsto> \<lparr>so_token = t\<rparr>),
               priv_token := Some (next_ref s)\<rparr>))"
  by (cases s)
     (simp add: register_resolve_def mark_registered_def alloc_PushToken_def token_set_def
       token_get_def new_PushToken_def Let_def)

lemma callback_registration_eq:
  "callback_registration t s =
     Inr (s\<lparr>heap := (heap s)(next_ref s := new_PushToken t),
            next_ref := Suc (next_ref s),
            storage := (storage s)(''push_token'' \<mapsto> \<lparr>so_token = t\<rparr>),
            priv_token := Some (next_ref s),
            logger := (if debug (options s)
                       then logger s @ [LogInfo (''Ionic Push (debug): device token registered: '' @ t)]
                       else logger s),
            emitter_emitted := emitter_emitted s @ [(''push:register'', RegisterPayload t)]\<rparr>)"
  by (cases s)
     (simp add: callback_registration_def alloc_PushToken_def token_set_def token_get_def
       new_PushToken_def PushToken_toString_def Let_def)

lemma run_plugin_handler_total: "\<exists>s'. run_plugin_handler f ev s = Inr s'"
  by (cases "(f, ev, s)" rule: run_plugin_handler.cases)
     (simp_all add: register_resolve_eq callback_registration_eq)

lemma run_plugin_handlers_total: "\<exists>s'. run_plugin_handlers fs ev s = Inr s'"
proof (induction fs arbitrary: s)
  case Nil
  show ?case by simp
next
  case (Cons f fs)
  from run_plugin_handler_total obtain s1 where "run_plugin_handler f ev s = Inr s1" by blast
  with Cons [of s1] show ?case by simp
qed

lemma settle_keeps:
  "i \<noteq> d \<or> \<not> promise_pending s d \<Longrightarrow> promises (settle d v s) ! i = promises s ! i"
  by (auto simp: settle_def)

text \<open>What a closure run on a registration event keeps.\<close>

lemma run_plugin_handler_keeps:
  assumes "run_plugin_handler f (Registration t) s = Inr s'"
  shows "next_ref s \<le> next_ref s' \<and> (\<forall>r < next_ref s. heap s' r = heap s r) \<and>
         length (promises s') = length (promises s) \<and>
         (\<forall>i. \<not> promise_pending s i \<longrightarrow> promises s' ! i = promises s ! i) \<and>
         (\<forall>i. f \<noteq> RegisterResolve i \<longrightarrow> promises s' ! i = promises s ! i) \<and>
         (storage s ''push_token'' = Some \<lparr>so_token = t\<rparr> \<longrightarrow>
            storage s' ''push_token'' = Some \<lparr>so_token = t\<rparr>)"
  using assms
  by (cases "(f, Registration t, s)" rule: run_plugin_handler.cases)
     (auto simp: register_resolve_eq callback_registration_eq resolve_def settle_def
       promise_pending_def nth_list_update)

lemma run_plugin_handlers_keeps:
  "run_plugin_handlers fs (Registration t) s = Inr s' \<Longrightarrow>
     next_ref s \<le> next_ref s' \<and> (\<forall>r < next_ref s. heap s' r = heap s r) \<and>
     length (promises s') = length (promises s) \<and>
     (\<forall>i. i < length (promises s) \<longrightarrow> promises s ! i \<noteq> Pending \<longrightarrow> promises s' ! i = promises s ! i) \<and>
     (storage s ''push_token'' = Some \<lparr>so_token = t\<rparr> \<longrightarrow>
        storage s' ''push_token'' = Some \<lparr>so_token = t\<rparr>)"
proof (induction fs arbitrary: s)
  case Nil
  then show ?case by simp
next
  case (Cons f fs)
  from Cons.prems obtain s1 where f: "run_plugin_handler f (Registration t) s = Inr s1"
    and fs: "run_plugin_handlers fs (Registration t) s1 = Inr s'"
    by (auto split: sum.splits)
  note one = run_plugin_handler_keeps [OF f] and rest = Cons.IH [OF fs]
  have "promises s' ! i = promises s ! i" if "i < length (promises s)" "promises s ! i \<noteq> Pending" for i
  proof -
    from that one have "promises s1 ! i = promises s ! i" by (simp add: promise_pending_def)
    with that one rest show ?thesis by simp
  qed
  moreover have "heap s' r = heap s r" if "r < next_ref s" for r
    using that one rest by simp
  ultimately show ?case using one rest by auto
qed

lemma resolve_closure_runs:
  "RegisterResolve d \<in> set fs \<Longrightarrow> promise_pending s d \<Longrightarrow>
   \<exists>s' r. run_plugin_handlers fs (Registration t) s = Inr s' \<and>
          promises s' ! d = Resolved (Some r) \<and> r < next_ref s' \<and>
          heap s' r = \<lparr>token = t, registered = True, saved = False\<rparr> \<and>
          storage s' ''push_token'' = Some \<lparr>so_token = t\<rparr>"
proof (induction fs arbitrary: s)
  case Nil
  then show ?case by simp
next
  case (Cons f fs)
  show ?case
  proof (cases "f = RegisterResolve d")
    case True
    let ?r = "next_ref s"
    let ?s1 = "resolve d (Some ?r)
            (s\<lparr>blockRegistration := False,
               heap := (heap s)(?r := \<lparr>token = t, registered = True, saved = False\<rparr>),
               next_ref := Suc ?r,
               storage := (storage s)(''push_token'' \<mapsto> \<lparr>so_token = t\<rparr>),
               priv_token := Some ?r\<rparr>)"
    have f: "run_plugin_handler f (Registration t) s = Inr ?s1"
      using True by (simp add: register_resolve_eq)
    have s1: "promises ?s1 ! d = Resolved (Some ?r)" "d < length (promises ?s1)" "?r < next_ref ?s1"
      "heap ?s1 ?r = \<lparr>token = t, registered = True, saved = False\<rparr>"
      "storage ?s1 ''push_token'' = Some \<lparr>so_token = t\<rparr>"
      using Cons.prems(2) by (simp_all add: resolve_def settle_def promise_pending_def)
    from run_plugin_handlers_total obtain s' where fs: "run_plugin_handlers fs (Registration t) ?s1 = Inr s'"
      by blast
    note rest = run_plugin_handlers_keeps [OF fs]
    have "promises s' ! d = Resolved (Some ?r)" using rest s1(1,2) by simp
    moreover have "?r < next_ref s'" using rest s1(3) by simp
    moreover have "heap s' ?r = \<lparr>token = t, registered = True, saved = False\<rparr>"
      using rest s1(3,4) by simp
    moreover have "storage s' ''push_token'' = Some \<lparr>so_token = t\<rparr>" using rest s1(5) by blast
    moreover have "run_plugin_handlers (f # fs) (Registration t) s = Inr s'" using f fs by simp
    ultimately show ?thesis by blast
  next
    case False
    from run_plugin_handler_total obtain s1 where f: "run_plugin_handler f (Registration t) s = Inr s1"
      by blast
    from run_plugin_handler_keeps [OF f] False Cons.prems(2) have "promise_pending s1 d"
      by (simp add: promise_pending_def)
    moreover from False Cons.prems(1) have "RegisterResolve d \<in> set fs" by simp
    ultimately obtain s' r where "run_plugin_handlers fs (Registration t) s1 = Inr s'"
      "promises s' ! d = Resolved (Some r)" "r < next_ref s'"
      "heap s' r = \<lparr>token = t, registered = True, saved = False\<rparr>"
      "storage s' ''push_token'' = Some \<lparr>so_token = t\<rparr>"
      using Cons.IH [of s1] by blast
    with f show ?thesis by auto
  qed
qed

lemma token_get_loads:
  "storage s ''push_token'' = Some \<lparr>so_token = t\<rparr> \<Longrightarrow>
   \<exists>r s'. token_get (s\<lparr>priv_token := None\<rparr>) = Inr (Some r, s') \<and> heap s' r = new_PushToken t \<and>
          storage s' = storage s"
  by (simp add: token_get_def Let_def)

text \<open>
  C7.  When the plugin fires \<^verbatim>\<open>registration\<close> with identifier \<open>t\<close> on a handle that
  carries the closure of a pending register(), all closures run without raising, the
  promise is resolved with a token object whose token is \<open>t\<close> and whose registered flag is
  set, storage holds \<^verbatim>\<open>{token: t}\<close> under \<^verbatim>\<open>push_token\<close>, and a getter that loads from
  that storage yields a token with the same string.
\<close>

theorem registration_event_resolves:
  assumes "RegisterResolve d \<in> set (subscribed h ''registration'' s)" and "promise_pending s d"
  shows "\<exists>s' r. plugin_fires h (Registration t) s = Inr s' \<and>
           promises s' ! d = Resolved (Some r) \<and>
           token (heap s' r) = t \<and> registered (heap s' r) \<and>
           storage s' ''push_token'' = Some \<lparr>so_token = t\<rparr> \<and>
           (\<exists>r' s''. token_get (s'\<lparr>priv_token := None\<rparr>) = Inr (Some r', s'') \<and>
                      token (heap s'' r') = t)"
proof -
  from resolve_closure_runs [OF assms, of t]
  obtain s' r where run: "run_plugin_handlers (subscribed h ''registration'' s) (Registration t) s = Inr s'"
    and res: "promises s' ! d = Resolved (Some r)"
    and obj: "heap s' r = \<lparr>token = t, registered = True, saved = False\<rparr>"
    and st: "storage s' ''push_token'' = Some \<lparr>so_token = t\<rparr>"
    by blast
  from token_get_loads [OF st] obtain r' s'' where
    "token_get (s'\<lparr>priv_token := None\<rparr>) = Inr (Some r', s'')" "token (heap s'' r') = t"
    by (auto simp: new_PushToken_def)
  with run res obj st show ?thesis by (auto simp: plugin_fires_def)
qed

theorem registration_event_resolves_witness:
  "RegisterResolve 0 \<in> set (subscribed 0 ''registration'' (run [CallRegister, DeviceReady True] fresh_push)) \<and>
   promise_pending (run [CallRegister, DeviceReady True] fresh_push) 0 \<and>
   promises registered_push ! 0 = Resolved (Some 0) \<and>
   token (heap registered_push 0) = ''abc123'' \<and> registered (heap registered_push 0) \<and>
   storage registered_push ''push_token'' = Some \<lparr>so_token = ''abc123''\<rparr>"
proof -
  let ?s = "run [CallRegister, DeviceReady True] fresh_push"
  have sub: "RegisterResolve 0 \<in> set (subscribed 0 ''registration'' ?s)"
    and pend: "promise_pending ?s 0"
    by (simp_all add: example_defs op_defs Let_def)
  from registration_event_resolves [OF sub pend, of "''abc123''"]
  obtain s' r where fire: "plugin_fires 0 (Registration ''abc123'') ?s = Inr s'"
    and out: "promises s' ! 0 = Resolved (Some r)" "token (heap s' r) = ''abc123''"
      "registered (heap s' r)" "storage s' ''push_token'' = Some \<lparr>so_token = ''abc123''\<rparr>"
    by blast
  have "registered_push = step (PluginFires 0 (Registration ''abc123'')) ?s"
    by (simp add: registered_push_def)
  with fire have eq: "registered_push = s'" by simp
  have "r = 0" using out(1) eq by (simp add: registered_push_state)
  with out eq sub pend show ?thesis by simp
qed

section \<open>saveToken\<close>

text \<open>
  C3.  saveToken never sets \<^verbatim>\<open>blockSaveToken\<close>: two calls in a row both send their request,
  both promises stay pending, and the lock is clear all along.
\<close>

theorem saveToken_twice_both_sent:
  "length (saves_in_flight
     (run [CallSaveToken 0 \<lparr>ignore_user = None\<rparr>, CallSaveToken 0 \<lparr>ignore_user = None\<rparr>]
        registered_push)) = 2 \<and>
   promises (run [CallSaveToken 0 \<lparr>ignore_user = None\<rparr>, CallSaveToken 0 \<lparr>ignore_user = None\<rparr>]
        registered_push) = [Resolved (Some 0), Pending, Pending] \<and>
   \<not> blockSaveToken (run [CallSaveToken 0 \<lparr>ignore_user = None\<rparr>] registered_push) \<and>
   \<not> blockSaveToken (run [CallSaveToken 0 \<lparr>ignore_user = None\<rparr>, CallSaveToken 0 \<lparr>ignore_user = None\<rparr>]
        registered_push)"
  by (simp add: example_defs op_defs Let_def)

lemma saveToken_lock_unchanged:
  "blockSaveToken (snd (saveToken tok opts s)) = blockSaveToken s"
  by (simp add: saveToken_def new_deferred_def reject_def settle_def Let_def)

text \<open>
  C8.  The record saveToken builds carries \<^verbatim>\<open>user_id\<close> exactly when \<^verbatim>\<open>ignore_user\<close> is not
  set (undefined, or false) and the session is authenticated, and then it is the current
  user's id; that record is the body of the request saveToken sends.
\<close>

theorem saveToken_user_id:
  "user_id (saveToken_tokenData tok opts s) =
     (if ignore_user opts \<noteq> Some True \<and> auth_isAuthenticated s
      then Some (user_ident (userService_current s)) else None) \<and>
   (\<not> blockSaveToken s \<longrightarrow>
      client (snd (saveToken tok opts s)) =
        client s @ [\<lparr>path = ''/push/tokens'', body = saveToken_tokenData tok opts s,
                     on_end = SaveTokenEnd tok (saveToken_tokenData tok opts s) (length (promises s))\<rparr>])"
  by (cases "ignore_user opts")
     (simp_all add: saveToken_tokenData_def saveToken_def new_deferred_def truthy_bool_def Let_def)

theorem saveToken_user_id_witness:
  "user_id (saveToken_tokenData 0 \<lparr>ignore_user = None\<rparr> registered_push) = Some ''u1'' \<and>
   user_id (saveToken_tokenData 0 \<lparr>ignore_user = Some True\<rparr> registered_push) = None \<and>
   \<not> blockSaveToken registered_push \<and>
   map body (client (snd (saveToken 0 \<lparr>ignore_user = None\<rparr> registered_push))) =
     [\<lparr>td_token = ''abc123'', app_id = Some ''app1'', user_id = Some ''u1''\<rparr>]"
proof -
  have auth: "auth_isAuthenticated registered_push"
    and user: "user_ident (userService_current registered_push) = ''u1''"
    and data: "saveToken_tokenData 0 \<lparr>ignore_user = None\<rparr> registered_push =
                 \<lparr>td_token = ''abc123'', app_id = Some ''app1'', user_id = Some ''u1''\<rparr>"
    by (simp_all add: example_defs op_defs Let_def)
  from saveToken_user_id [of 0 "\<lparr>ignore_user = None\<rparr>" registered_push]
       saveToken_user_id [of 0 "\<lparr>ignore_user = Some True\<rparr>" registered_push]
       auth user data registered_push_state
  show ?thesis by simp
qed

section \<open>The constructor on Android without a sender id\<close>

text \<open>
  C9, as the claim states it, fails: the coordinator built on Android without
  \<^verbatim>\<open>sender_id\<close> is not inert.  Its register() is admitted, initialises the plugin when the
  device is ready, and resolves with the token of the plugin's registration event.
\<close>

theorem android_without_sender_id_registers:
  "device_isAndroid android_push \<and> \<not> truthy (sender_id (options android_push)) \<and>
   promises (run [CallRegister] android_push) = [Pending] \<and>
   plugin_inits (run [CallRegister, DeviceReady True] android_push) = [None] \<and>
   promises (run [CallRegister, DeviceReady True, PluginFires 0 (Registration ''abc123'')]
      android_push) = [Resolved (Some 0)] \<and>
   storage (run [CallRegister, DeviceReady True, PluginFires 0 (Registration ''abc123'')]
      android_push) ''push_token'' = Some \<lparr>so_token = ''abc123''\<rparr>"
  by (simp add: example_defs op_defs Let_def)

text \<open>
  C9, amended.  On Android without \<^verbatim>\<open>sender_id\<close> the constructor logs the configuration
  error and returns a coordinator (it raises nothing) whose options are the ones passed,
  with no plugin configuration added and all locks clear; register() on it is admitted as
  on any new coordinator.
\<close>

theorem constructor_without_sender_id:
  assumes "dep_isAndroid deps" and "\<not> truthy (sender_id opts)"
  shows "logger (constructor deps opts) =
           [LogError ''Ionic Push: GCM project number not found (http://docs.ionic.io/docs/push-android-setup)''] \<and>
         options (constructor deps opts) = opts \<and>
         \<not> blockRegistration (constructor deps opts) \<and>
         \<not> blockUnregister (constructor deps opts) \<and>
         \<not> blockSaveToken (constructor deps opts) \<and>
         register (constructor deps opts) =
           (0, (constructor deps opts)
                 \<lparr>promises := [Pending], blockRegistration := True,
                  emitter_once := [(''device:ready'', RegisterOnReady 0)]\<rparr>)"
  using assms by (simp add: constructor_def register_def new_deferred_def Let_def)

theorem constructor_without_sender_id_witness:
  "dep_isAndroid (example_deps\<lparr>dep_isAndroid := True, dep_isIOS := False\<rparr>) \<and>
   \<not> truthy (sender_id example_options) \<and>
   logger android_push =
     [LogError ''Ionic Push: GCM project number not found (http://docs.ionic.io/docs/push-android-setup)''] \<and>
   options android_push = example_options \<and>
   promises (snd (register android_push)) = [Pending]"
proof -
  have android: "dep_isAndroid (example_deps\<lparr>dep_isAndroid := True, dep_isIOS := False\<rparr>)"
    by simp
  have missing: "\<not> truthy (sender_id example_options)"
    by (simp add: example_options_def truthy_def)
  from constructor_without_sender_id [OF android missing] android missing
  show ?thesis by (simp add: android_push_def)
qed

end
